theory Spec2Isabelle
  imports Main "HOL-Library.Word"
begin

unbundle bit_operations_syntax

section \<open>Conventions of the embedding\<close>

text \<open>
  The C++ sources are embedded function by function.  The type \<open>int\<close> of the program is
  modelled by the unbounded integers (signed overflow is undefined behaviour in C++ and no
  coordinate of a grid comes near the limits), \<open>unsigned int\<close> by \<open>32 word\<close> and
  \<open>uint16_t\<close> by \<open>16 word\<close>.  A failed \<open>assert\<close>, an exception of \<open>std::vector::at\<close> and
  an unchecked access outside a vector are values of the type \<open>error\<close>; a computation that
  may fail returns \<open>error + 'a\<close>.  A loop whose termination is not evident returns an
  \<open>option\<close>, where \<open>None\<close> means that no result is produced.
\<close>

datatype error = AssertionFailed | OutOfRange | UndefinedBehaviour

section \<open>squareset.h: the mask of a 3x3 window\<close>

type_synonym val_t = "32 word"

definition NONE :: val_t where "NONE = 0"
definition TOP_LEFT :: val_t where "TOP_LEFT = 0x001"
definition TOP :: val_t where "TOP = 0x002"
definition TOP_RIGHT :: val_t where "TOP_RIGHT = 0x004"
definition LEFT :: val_t where "LEFT = 0x008"
definition CENTER :: val_t where "CENTER = 0x010"
definition RIGHT :: val_t where "RIGHT = 0x020"
definition BOTTOM_LEFT :: val_t where "BOTTOM_LEFT = 0x040"
definition BOTTOM :: val_t where "BOTTOM = 0x080"
definition BOTTOM_RIGHT :: val_t where "BOTTOM_RIGHT = 0x100"

definition LEFT_COLUMN :: val_t where "LEFT_COLUMN = TOP_LEFT OR LEFT OR BOTTOM_LEFT"
definition CENTER_COLUMN :: val_t where "CENTER_COLUMN = TOP OR CENTER OR BOTTOM"
definition RIGHT_COLUMN :: val_t where "RIGHT_COLUMN = TOP_RIGHT OR RIGHT OR BOTTOM_RIGHT"
definition TOP_ROW :: val_t where "TOP_ROW = TOP_LEFT OR TOP OR TOP_RIGHT"
definition CENTER_ROW :: val_t where "CENTER_ROW = LEFT OR CENTER OR RIGHT"
definition BOTTOM_ROW :: val_t where "BOTTOM_ROW = BOTTOM_LEFT OR BOTTOM OR BOTTOM_RIGHT"

lemmas flag_defs = NONE_def TOP_LEFT_def TOP_def TOP_RIGHT_def LEFT_def CENTER_def RIGHT_def
  BOTTOM_LEFT_def BOTTOM_def BOTTOM_RIGHT_def LEFT_COLUMN_def CENTER_COLUMN_def
  RIGHT_COLUMN_def TOP_ROW_def CENTER_ROW_def BOTTOM_ROW_def

definition enumerateSquareSetMaskFlags :: "val_t list" where
  "enumerateSquareSetMaskFlags =
     [TOP_LEFT, TOP, TOP_RIGHT, LEFT, CENTER, RIGHT, BOTTOM_LEFT, BOTTOM, BOTTOM_RIGHT]"

text \<open>\<open>pt2mf\<close> is only called with \<open>x\<close> and \<open>y\<close> between 0 and 2.\<close>

definition pt2mf :: "int \<Rightarrow> int \<Rightarrow> val_t" where
  "pt2mf x y = push_bit (nat (y * 3 + x)) 1"

definition mf2pt :: "val_t \<Rightarrow> int \<times> int" where
  "mf2pt flag =
     (if flag = TOP_LEFT then (0, 0)
      else if flag = TOP then (1, 0)
      else if flag = TOP_RIGHT then (2, 0)
      else if flag = LEFT then (0, 1)
      else if flag = CENTER then (1, 1)
      else if flag = RIGHT then (2, 1)
      else if flag = BOTTOM_LEFT then (0, 2)
      else if flag = BOTTOM then (1, 2)
      else if flag = BOTTOM_RIGHT then (2, 2)
      else (-1, -1))"

text \<open>
  \<open>popcount\<close> takes a \<open>uint16_t\<close>.  Each line of the source computes in \<open>int\<close> and stores
  the sum back into the 16-bit variable; this is the arithmetic of \<open>16 word\<close>.
\<close>

definition popcount :: "16 word \<Rightarrow> int" where
  "popcount word0 =
     (let word1 = (word0 AND 0x5555) + drop_bit 1 (word0 AND 0xAAAA);
          word2 = (word1 AND 0x3333) + drop_bit 2 (word1 AND 0xCCCC);
          word3 = (word2 AND 0x0F0F) + drop_bit 4 (word2 AND 0xF0F0);
          word4 = (word3 AND 0x00FF) + drop_bit 8 (word3 AND 0xFF00)
      in uint word4)"

text \<open>\<open>SquareSetMask::count\<close> passes the 32-bit value to \<open>popcount\<close>, which truncates it.\<close>

definition count :: "val_t \<Rightarrow> int" where
  "count m = popcount (ucast m)"

text \<open>\<open>SquareSetMask::operator~\<close> flips the nine bits of the window only.\<close>

definition mask_not :: "val_t \<Rightarrow> val_t" where
  "mask_not m = m XOR (push_bit 1 BOTTOM_RIGHT - 1)"

text \<open>
  A \<open>SquareSet\<close>: the position of the top-left square of the window and the mask.  The
  fields \<open>x\<close>, \<open>y\<close> and \<open>mask\<close> of the source are called \<open>ss_x\<close>, \<open>ss_y\<close> and \<open>ss_mask\<close>.
\<close>

record SquareSet =
  ss_x :: int
  ss_y :: int
  ss_mask :: val_t

text \<open>
  \<open>foreachSquare\<close> calls its argument on the squares of the set, in the order of the
  flags; the model returns the squares visited, in that order.
\<close>

definition foreachSquare :: "SquareSet \<Rightarrow> (int \<times> int) list" where
  "foreachSquare s =
     map (\<lambda>flag. (ss_x s + fst (mf2pt flag), ss_y s + snd (mf2pt flag)))
       (filter (\<lambda>flag. ss_mask s AND flag \<noteq> 0) enumerateSquareSetMaskFlags)"

text \<open>The squares of the grid that a \<open>SquareSet\<close> denotes.\<close>

definition squares :: "SquareSet \<Rightarrow> (int \<times> int) set" where
  "squares s = set (foreachSquare s)"

text \<open>The masks of the data model have nine bits.\<close>

definition mask9 :: "val_t \<Rightarrow> bool" where
  "mask9 m \<longleftrightarrow> m \<le> 0x1FF"

section \<open>squareset.cpp\<close>

definition move_left :: "val_t \<Rightarrow> val_t" where
  "move_left m = push_bit 1 (m AND mask_not RIGHT_COLUMN)"

definition move_right :: "val_t \<Rightarrow> val_t" where
  "move_right m = drop_bit 1 (m AND mask_not LEFT_COLUMN)"

definition move_up :: "val_t \<Rightarrow> val_t" where
  "move_up m = push_bit 3 (m AND mask_not BOTTOM_ROW)"

definition move_down :: "val_t \<Rightarrow> val_t" where
  "move_down m = drop_bit 3 (m AND mask_not TOP_ROW)"

text \<open>
  The four loops of the constructor \<open>SquareSet(int x, int y, const SquareSet& other)\<close>.
  Each returns the moved coordinate and the mask.
\<close>

function loop_left :: "int \<Rightarrow> int \<Rightarrow> val_t \<Rightarrow> int \<times> val_t" where
  "loop_left ox x m = (if ox > x then loop_left (ox - 1) x (move_left m) else (ox, m))"
  by pat_completeness auto
termination
  by (relation "measure (\<lambda>(ox, x, m). nat (ox - x))") auto

function loop_right :: "int \<Rightarrow> int \<Rightarrow> val_t \<Rightarrow> int \<times> val_t" where
  "loop_right ox x m = (if ox < x then loop_right (ox + 1) x (move_right m) else (ox, m))"
  by pat_completeness auto
termination
  by (relation "measure (\<lambda>(ox, x, m). nat (x - ox))") auto

function loop_up :: "int \<Rightarrow> int \<Rightarrow> val_t \<Rightarrow> int \<times> val_t" where
  "loop_up oy y m = (if oy > y then loop_up (oy - 1) y (move_up m) else (oy, m))"
  by pat_completeness auto
termination
  by (relation "measure (\<lambda>(oy, y, m). nat (oy - y))") auto

function loop_down :: "int \<Rightarrow> int \<Rightarrow> val_t \<Rightarrow> int \<times> val_t" where
  "loop_down oy y m = (if oy < y then loop_down (oy + 1) y (move_down m) else (oy, m))"
  by pat_completeness auto
termination
  by (relation "measure (\<lambda>(oy, y, m). nat (y - oy))") auto

declare loop_left.simps [simp del] loop_right.simps [simp del]
  loop_up.simps [simp del] loop_down.simps [simp del]

text \<open>The constructor that moves \<open>other\<close> to the window at \<open>(x, y)\<close>.\<close>

definition SquareSet_at :: "int \<Rightarrow> int \<Rightarrow> SquareSet \<Rightarrow> SquareSet" where
  "SquareSet_at x y other =
     (if \<bar>ss_x other - x\<bar> \<ge> 3 \<or> \<bar>ss_y other - y\<bar> \<ge> 3
      then \<lparr>ss_x = x, ss_y = y, ss_mask = 0\<rparr>
      else
        let (ox1, m1) = loop_left (ss_x other) x (ss_mask other);
            (ox2, m2) = loop_right ox1 x m1;
            (oy1, m3) = loop_up (ss_y other) y m2;
            (oy2, m4) = loop_down oy1 y m3
        in \<lparr>ss_x = x, ss_y = y, ss_mask = m4\<rparr>)"

text \<open>
  The two loops of \<open>SquareSet::normalize\<close>.  They do not end on a mask that is not zero
  and has none of its nine low bits set.
\<close>

partial_function (option) normalize_x :: "int \<Rightarrow> val_t \<Rightarrow> (int \<times> val_t) option" where
  "normalize_x x m =
     (if m AND LEFT_COLUMN = 0 then normalize_x (x + 1) (move_right m) else Some (x, m))"

partial_function (option) normalize_y :: "int \<Rightarrow> val_t \<Rightarrow> (int \<times> val_t) option" where
  "normalize_y y m =
     (if m AND TOP_ROW = 0 then normalize_y (y + 1) (move_down m) else Some (y, m))"

declare normalize_x.simps [code] normalize_y.simps [code]

definition normalize :: "SquareSet \<Rightarrow> SquareSet option" where
  "normalize s =
     (if ss_mask s = 0 then Some s
      else case normalize_x (ss_x s) (ss_mask s) of
        None \<Rightarrow> None
      | Some (x', m1) \<Rightarrow>
          (case normalize_y (ss_y s) m1 of
             None \<Rightarrow> None
           | Some (y', m2) \<Rightarrow> Some \<lparr>ss_x = x', ss_y = y', ss_mask = m2\<rparr>))"

definition xmax :: "SquareSet \<Rightarrow> int" where
  "xmax s =
     (if ss_mask s AND RIGHT_COLUMN \<noteq> 0 then ss_x s + 2
      else if ss_mask s AND CENTER_COLUMN \<noteq> 0 then ss_x s + 1
      else ss_x s)"

definition ymax :: "SquareSet \<Rightarrow> int" where
  "ymax s =
     (if ss_mask s AND BOTTOM_ROW \<noteq> 0 then ss_y s + 2
      else if ss_mask s AND CENTER_ROW \<noteq> 0 then ss_y s + 1
      else ss_y s)"

text \<open>\<open>operator<\<close>: the order of the tuples \<open>(x, y, mask)\<close>.\<close>

definition squareset_less :: "SquareSet \<Rightarrow> SquareSet \<Rightarrow> bool" where
  "squareset_less lhs rhs \<longleftrightarrow>
     ss_x lhs < ss_x rhs \<or>
     (ss_x lhs = ss_x rhs \<and>
       (ss_y lhs < ss_y rhs \<or> (ss_y lhs = ss_y rhs \<and> ss_mask lhs < ss_mask rhs)))"

text \<open>\<open>operator&\<close> and \<open>operator-\<close> on square sets.\<close>

definition squareset_and :: "SquareSet \<Rightarrow> SquareSet \<Rightarrow> SquareSet" where
  "squareset_and lhs rhs =
     (let other = SquareSet_at (ss_x lhs) (ss_y lhs) rhs
      in \<lparr>ss_x = ss_x lhs, ss_y = ss_y lhs, ss_mask = ss_mask lhs AND ss_mask other\<rparr>)"

definition squareset_minus :: "SquareSet \<Rightarrow> SquareSet \<Rightarrow> SquareSet" where
  "squareset_minus lhs rhs =
     (let other = SquareSet_at (ss_x lhs) (ss_y lhs) rhs
      in \<lparr>ss_x = ss_x lhs, ss_y = ss_y lhs,
          ss_mask = ss_mask lhs AND mask_not (ss_mask other)\<rparr>)"

section \<open>Results of computations that may fail or not return\<close>

text \<open>
  \<open>Some (Inr v)\<close> is a normal return of \<open>v\<close>, \<open>Some (Inl e)\<close> is the failure \<open>e\<close> (the
  program is aborted or an exception leaves the function) and \<open>None\<close> means that the
  computation does not return.
\<close>

type_synonym 'a res = "(error + 'a) option"

definition ok :: "'a \<Rightarrow> 'a res" where
  "ok v = Some (Inr v)"

definition failure :: "error \<Rightarrow> 'a res" where
  "failure e = Some (Inl e)"

definition rbind :: "'a res \<Rightarrow> ('a \<Rightarrow> 'b res) \<Rightarrow> 'b res" where
  "rbind m f = (case m of None \<Rightarrow> None | Some (Inl e) \<Rightarrow> Some (Inl e) | Some (Inr v) \<Rightarrow> f v)"

text \<open>\<open>assert(c)\<close> followed by the rest of the function.\<close>

definition assert :: "bool \<Rightarrow> 'a res \<Rightarrow> 'a res" where
  "assert c m = (if c then m else failure AssertionFailed)"

text \<open>A \<open>for\<close> loop over the elements of a list, with the state passed along.\<close>

fun foldM :: "('s \<Rightarrow> 'a \<Rightarrow> 's res) \<Rightarrow> 's \<Rightarrow> 'a list \<Rightarrow> 's res" where
  "foldM f s [] = ok s"
| "foldM f s (a # as) = rbind (f s a) (\<lambda>s'. foldM f s' as)"

section \<open>grid.h\<close>

text \<open>
  A value of \<open>size_t\<close> that the program obtains by converting an \<open>int\<close> is represented by
  that integer: a negative one stands for the huge value it wraps to, which is outside
  every vector, and converting it back to \<open>int\<close> gives the same integer.
\<close>

record 'a Grid =
  grid_width :: int
  grid_height :: int
  grid_data :: "'a list"

text \<open>The division and the remainder of C++ truncate towards zero.\<close>

definition tdiv :: "int \<Rightarrow> int \<Rightarrow> int" where
  "tdiv a b = sgn a * sgn b * (\<bar>a\<bar> div \<bar>b\<bar>)"

definition tmod :: "int \<Rightarrow> int \<Rightarrow> int" where
  "tmod a b = sgn a * (\<bar>a\<bar> mod \<bar>b\<bar>)"

definition pt2idx :: "'a Grid \<Rightarrow> int \<Rightarrow> int \<Rightarrow> int" where
  "pt2idx g x y = y * grid_width g + x"

text \<open>\<open>idx2pt\<close> divides by the width: a width of zero is undefined behaviour.\<close>

definition idx2pt :: "'a Grid \<Rightarrow> int \<Rightarrow> (int \<times> int) res" where
  "idx2pt g index =
     (if grid_width g = 0 then failure UndefinedBehaviour
      else ok (tmod index (grid_width g), tdiv index (grid_width g)))"

definition grid_size :: "'a Grid \<Rightarrow> int" where
  "grid_size g = int (length (grid_data g))"

text \<open>The constructor \<open>Grid(w, h, value)\<close>; a negative size makes \<open>resize\<close> throw.\<close>

definition Grid_new :: "int \<Rightarrow> int \<Rightarrow> 'a \<Rightarrow> 'a Grid res" where
  "Grid_new w h v =
     (if w * h < 0 then failure OutOfRange
      else ok \<lparr>grid_width = w, grid_height = h, grid_data = replicate (nat (w * h)) v\<rparr>)"

definition contains :: "'a Grid \<Rightarrow> int \<Rightarrow> int \<Rightarrow> bool" where
  "contains g x y \<longleftrightarrow> x \<ge> 0 \<and> x < grid_width g \<and> y \<ge> 0 \<and> y < grid_height g"

text \<open>\<open>at(index)\<close> and \<open>at(x, y)\<close> are checked and throw \<open>std::out_of_range\<close>.\<close>

definition at_index :: "'a Grid \<Rightarrow> int \<Rightarrow> 'a res" where
  "at_index g i =
     (if 0 \<le> i \<and> i < grid_size g then ok (grid_data g ! nat i) else failure OutOfRange)"

definition at :: "'a Grid \<Rightarrow> int \<Rightarrow> int \<Rightarrow> 'a res" where
  "at g x y = at_index g (y * grid_width g + x)"

text \<open>\<open>operator[]\<close> and \<open>set\<close> are unchecked: outside the vector they are undefined.\<close>

definition get_index :: "'a Grid \<Rightarrow> int \<Rightarrow> 'a res" where
  "get_index g i =
     (if 0 \<le> i \<and> i < grid_size g then ok (grid_data g ! nat i)
      else failure UndefinedBehaviour)"

definition get_pos :: "'a Grid \<Rightarrow> int \<Rightarrow> int \<Rightarrow> 'a res" where
  "get_pos g x y = get_index g (y * grid_width g + x)"

definition set_index :: "'a Grid \<Rightarrow> int \<Rightarrow> 'a \<Rightarrow> 'a Grid res" where
  "set_index g i v =
     (if 0 \<le> i \<and> i < grid_size g then ok (g\<lparr>grid_data := (grid_data g)[nat i := v]\<rparr>)
      else failure UndefinedBehaviour)"

definition set_xy :: "'a Grid \<Rightarrow> int \<Rightarrow> int \<Rightarrow> 'a \<Rightarrow> 'a Grid res" where
  "set_xy g x y v = set_index g (y * grid_width g + x) v"

text \<open>The indices \<open>0 .. size - 1\<close> of a loop over the vector of a grid.\<close>

definition indices :: "'a Grid \<Rightarrow> int list" where
  "indices g = map int [0..<length (grid_data g)]"

section \<open>knowledge.h and gamedata.h\<close>

text \<open>
  \<open>PlayerKnowledge\<close> is an enumeration that the program converts from and to \<open>int\<close>:
  a revealed square holds its number of neighbouring mines.
\<close>

type_synonym PlayerKnowledge = int

definition Unknown :: PlayerKnowledge where "Unknown = -2"
definition MarkedAsMine :: PlayerKnowledge where "MarkedAsMine = -1"
definition Mine0 :: PlayerKnowledge where "Mine0 = 0"

record GameParams =
  p_width :: int
  p_height :: int
  p_minecount :: int
  p_unique :: bool
  p_sx :: int
  p_sy :: int
  p_seed :: "32 word"

record GameData =
  gd_params :: GameParams
  gd_seed :: "32 word"
  gd_mines :: "bool Grid"
  gd_grid :: "PlayerKnowledge Grid"
  gd_dead :: bool
  gd_won :: bool

section \<open>game.cpp: the mine lookup\<close>

text \<open>The offsets \<open>(i, j)\<close> of the two nested loops from -1 to 1, the first one outside.\<close>

definition offsets :: "(int \<times> int) list" where
  "offsets = [(-1, -1), (-1, 0), (-1, 1), (0, -1), (0, 0), (0, 1), (1, -1), (1, 0), (1, 1)]"

definition mineLookup :: "GameData \<Rightarrow> int \<Rightarrow> int \<Rightarrow> int res" where
  "mineLookup game x y =
     rbind (at (gd_mines game) x y) (\<lambda>mine.
       if mine then ok (-1)
       else foldM (\<lambda>n (i, j).
              if \<not> contains (gd_mines game) (x + i) (y + j) \<or> (i = 0 \<and> j = 0) then ok n
              else rbind (at (gd_mines game) (x + i) (y + j)) (\<lambda>m. ok (if m then n + 1 else n)))
            0 offsets)"

section \<open>solver.cpp: the set store\<close>

text \<open>
  An element of the store is a square set with a mine count and the flag of the todo list.
  The class of the source derives from \<open>SquareSet\<close>; here the set is the field \<open>el_set\<close>.
  The store is a \<open>std::map\<close> from the set to the element: the list \<open>ss_elements\<close>, kept in
  the order of the keys.  The key of an element and the set inside the element are equal
  when the element is inserted and are never changed, so the list holds the elements only.
  The todo list, a linked list through the elements in the source, is the list of their
  keys from head to tail.  An iterator is represented by the key of the element.
\<close>

record SetStoreElement =
  el_set :: SquareSet
  el_mines :: int
  el_todo :: bool

record SetStore =
  ss_elements :: "SetStoreElement list"
  ss_todolist :: "SquareSet list"

definition SetStore_empty :: SetStore where
  "SetStore_empty = \<lparr>ss_elements = [], ss_todolist = []\<rparr>"

text \<open>Two keys are the same key of the map when neither is less than the other.\<close>

definition same_key :: "SquareSet \<Rightarrow> SquareSet \<Rightarrow> bool" where
  "same_key a b \<longleftrightarrow> \<not> squareset_less a b \<and> \<not> squareset_less b a"

text \<open>\<open>std::map::insert\<close>: the new list and whether the element was inserted.\<close>

fun map_insert :: "SetStoreElement \<Rightarrow> SetStoreElement list \<Rightarrow> SetStoreElement list \<times> bool" where
  "map_insert e [] = ([e], True)"
| "map_insert e (f # fs) =
     (if squareset_less (el_set e) (el_set f) then (e # f # fs, True)
      else if squareset_less (el_set f) (el_set e)
        then (let (r, b) = map_insert e fs in (f # r, b))
        else (f # fs, False))"

fun map_find :: "SquareSet \<Rightarrow> SetStoreElement list \<Rightarrow> SetStoreElement option" where
  "map_find k [] = None"
| "map_find k (e # es) = (if same_key (el_set e) k then Some e else map_find k es)"

definition map_update :: "SquareSet \<Rightarrow> (SetStoreElement \<Rightarrow> SetStoreElement) \<Rightarrow>
    SetStoreElement list \<Rightarrow> SetStoreElement list" where
  "map_update k f es = map (\<lambda>e. if same_key (el_set e) k then f e else e) es"

definition map_erase :: "SquareSet \<Rightarrow> SetStoreElement list \<Rightarrow> SetStoreElement list" where
  "map_erase k es = filter (\<lambda>e. \<not> same_key (el_set e) k) es"

definition setstore_size :: "SetStore \<Rightarrow> int" where
  "setstore_size ss = int (length (ss_elements ss))"

text \<open>\<open>setstore_at\<close>: advancing the iterator past the end is undefined.\<close>

definition setstore_at :: "SetStore \<Rightarrow> int \<Rightarrow> SquareSet res" where
  "setstore_at ss i =
     (if 0 \<le> i \<and> i < setstore_size ss then ok (el_set (ss_elements ss ! nat i))
      else failure UndefinedBehaviour)"

text \<open>Dereferencing an iterator; the iterator of an erased element is invalid.\<close>

definition deref :: "SetStore \<Rightarrow> SquareSet \<Rightarrow> SetStoreElement res" where
  "deref ss it =
     (case map_find it (ss_elements ss) of
        None \<Rightarrow> failure UndefinedBehaviour
      | Some e \<Rightarrow> ok e)"

definition add_todo :: "SquareSet \<Rightarrow> SetStore \<Rightarrow> SetStore res" where
  "add_todo it ss =
     rbind (deref ss it) (\<lambda>elem.
       if el_todo elem then ok ss
       else ok (ss\<lparr>ss_elements := map_update it (\<lambda>e. e\<lparr>el_todo := True\<rparr>) (ss_elements ss),
                  ss_todolist := ss_todolist ss @ [it]\<rparr>))"

definition add :: "int \<Rightarrow> int \<Rightarrow> val_t \<Rightarrow> int \<Rightarrow> SetStore \<Rightarrow> SetStore res" where
  "add x y m mines ss =
     (case normalize \<lparr>ss_x = x, ss_y = y, ss_mask = m\<rparr> of
        None \<Rightarrow> None
      | Some s \<Rightarrow>
          (let (es, inserted) =
                 map_insert \<lparr>el_set = s, el_mines = mines, el_todo = False\<rparr> (ss_elements ss)
           in if inserted then add_todo s (ss\<lparr>ss_elements := es\<rparr>) else ok ss))"

text \<open>\<open>find\<close> normalises the set and looks it up.\<close>

definition find_set :: "SetStore \<Rightarrow> SquareSet \<Rightarrow> SetStoreElement option option" where
  "find_set ss s =
     (case normalize s of None \<Rightarrow> None | Some k \<Rightarrow> Some (map_find k (ss_elements ss)))"

definition erase :: "SquareSet \<Rightarrow> SetStore \<Rightarrow> SetStore res" where
  "erase it ss =
     rbind (deref ss it) (\<lambda>elem.
       ok (ss\<lparr>ss_elements := map_erase it (ss_elements ss),
              ss_todolist := (if el_todo elem then remove1 it (ss_todolist ss)
                              else ss_todolist ss)\<rparr>))"

text \<open>\<open>next_todo\<close>: the element at the head of the todo list, if any, and the new store.\<close>

definition next_todo :: "SetStore \<Rightarrow> (SetStoreElement option \<times> SetStore) res" where
  "next_todo ss =
     (case ss_todolist ss of
        [] \<Rightarrow> ok (None, ss)
      | k # ks \<Rightarrow>
          rbind (deref ss k) (\<lambda>elem.
            ok (Some (elem\<lparr>el_todo := False\<rparr>),
                ss\<lparr>ss_elements := map_update k (\<lambda>e. e\<lparr>el_todo := False\<rparr>) (ss_elements ss),
                   ss_todolist := ks\<rparr>)))"

text \<open>
  \<open>overlap\<close>: for each of the 25 anchors, \<open>lower_bound\<close> of the key with the empty mask
  and the elements that follow with this anchor; those that meet the input are returned.
\<close>

definition lower_bound :: "SquareSet \<Rightarrow> SetStoreElement list \<Rightarrow> SetStoreElement list" where
  "lower_bound k es = dropWhile (\<lambda>e. squareset_less (el_set e) k) es"

definition overlap_at :: "SetStore \<Rightarrow> SquareSet \<Rightarrow> int \<Rightarrow> int \<Rightarrow> SquareSet list" where
  "overlap_at ss input xx yy =
     map el_set
       (filter (\<lambda>e. ss_mask (squareset_and (el_set e) input) \<noteq> 0)
          (takeWhile (\<lambda>e. ss_x (el_set e) = xx \<and> ss_y (el_set e) = yy)
             (lower_bound \<lparr>ss_x = xx, ss_y = yy, ss_mask = 0\<rparr> (ss_elements ss))))"

definition overlap :: "SetStore \<Rightarrow> int \<Rightarrow> int \<Rightarrow> val_t \<Rightarrow> SquareSet list" where
  "overlap ss x y m =
     concat (map (\<lambda>xx. concat (map (\<lambda>yy. overlap_at ss \<lparr>ss_x = x, ss_y = y, ss_mask = m\<rparr> xx yy)
                                  [y - 2, y - 1, y, y + 1, y + 2]))
               [x - 2, x - 1, x, x + 1, x + 2])"

section \<open>perturbator.h and perturbator.cpp\<close>

text \<open>
  The random engine and the algorithms of the C++ library that draw from it are parameters
  of the model.  \<open>rng_shuffle\<close> gives, for an engine and a number \<open>n\<close> of elements, the
  order in which \<open>std::shuffle\<close> leaves \<open>n\<close> elements and the engine afterwards;
  \<open>rng_uniform\<close> is a call of a \<open>std::uniform_int_distribution\<close>; \<open>rng_seed\<close> is the
  engine after \<open>seed(s)\<close>.
\<close>

record 'r RandomOps =
  rng_seed :: "32 word \<Rightarrow> 'r"
  rng_shuffle :: "'r \<Rightarrow> nat \<Rightarrow> nat list \<times> 'r"
  rng_uniform :: "'r \<Rightarrow> int \<Rightarrow> int \<Rightarrow> int \<times> 'r"

text \<open>What the C++ standard promises of them: a permutation, a value in the range.\<close>

definition random_ok :: "'r RandomOps \<Rightarrow> bool" where
  "random_ok R \<longleftrightarrow>
     (\<forall>r n. length (fst (rng_shuffle R r n)) = n \<and> set (fst (rng_shuffle R r n)) = {0..<n}) \<and>
     (\<forall>r a b. a \<le> b \<longrightarrow> a \<le> fst (rng_uniform R r a b) \<and> fst (rng_uniform R r a b) \<le> b)"

definition shuffle :: "'r RandomOps \<Rightarrow> 'r \<Rightarrow> 'a list \<Rightarrow> 'a list \<times> 'r" where
  "shuffle R rng xs =
     (let (p, rng') = rng_shuffle R rng (length xs) in (map (\<lambda>i. xs ! i) p, rng'))"

datatype Change = ChangedToMine | Cleared

definition delta_int :: "Change \<Rightarrow> int" where
  "delta_int c = (case c of ChangedToMine \<Rightarrow> 1 | Cleared \<Rightarrow> -1)"

definition opposite :: "Change \<Rightarrow> Change" where
  "opposite c = (case c of ChangedToMine \<Rightarrow> Cleared | Cleared \<Rightarrow> ChangedToMine)"

record Perturbation =
  pb_x :: int
  pb_y :: int
  pb_delta :: Change

datatype SquareType = NearKnownSquare | InUnknownRegion | KnownSquare

definition type_int :: "SquareType \<Rightarrow> int" where
  "type_int t = (case t of NearKnownSquare \<Rightarrow> 1 | InUnknownRegion \<Rightarrow> 2 | KnownSquare \<Rightarrow> 3)"

record PerturbSquare =
  sq_type :: SquareType
  sq_x :: int
  sq_y :: int

text \<open>The comparison of \<open>std::sort\<close> in \<open>build_squarelist\<close>: the tuples \<open>(type, y, x)\<close>.\<close>

definition square_less :: "PerturbSquare \<Rightarrow> PerturbSquare \<Rightarrow> bool" where
  "square_less lhs rhs \<longleftrightarrow>
     type_int (sq_type lhs) < type_int (sq_type rhs) \<or>
     (type_int (sq_type lhs) = type_int (sq_type rhs) \<and>
       (sq_y lhs < sq_y rhs \<or> (sq_y lhs = sq_y rhs \<and> sq_x lhs < sq_x rhs)))"

text \<open>
  \<open>std::sort\<close> with a comparison: the squares of the list are distinct, hence no two are
  equivalent and the sorted order is unique; it is computed by insertion.
\<close>

fun insert_by :: "('a \<Rightarrow> 'a \<Rightarrow> bool) \<Rightarrow> 'a \<Rightarrow> 'a list \<Rightarrow> 'a list" where
  "insert_by lt a [] = [a]"
| "insert_by lt a (b # bs) = (if lt b a then b # insert_by lt a bs else a # b # bs)"

definition sort_by :: "('a \<Rightarrow> 'a \<Rightarrow> bool) \<Rightarrow> 'a list \<Rightarrow> 'a list" where
  "sort_by lt xs = foldr (insert_by lt) xs []"

text \<open>
  The loop that shuffles each group of squares of one type: \<open>std::upper_bound\<close> finds the
  end of the group of the first square, the group is shuffled, and the loop goes on behind it.
\<close>

function shuffle_groups :: "'r RandomOps \<Rightarrow> 'r \<Rightarrow> PerturbSquare list \<Rightarrow> PerturbSquare list \<times> 'r" where
  "shuffle_groups R rng [] = ([], rng)"
| "shuffle_groups R rng (a # as) =
     (let n = length (takeWhile (\<lambda>e. \<not> type_int (sq_type a) < type_int (sq_type e)) (a # as));
          g = shuffle R rng (take n (a # as));
          r = shuffle_groups R (snd g) (drop n (a # as))
      in (fst g @ fst r, snd r))"
  by pat_completeness auto
termination
  by (relation "measure (\<lambda>(R, rng, xs). length xs)") auto

declare shuffle_groups.simps [simp del]

text \<open>The inner loop over \<open>dx\<close> of the classification, which stops at a known neighbour.\<close>

fun near_known_row :: "PlayerKnowledge Grid \<Rightarrow> int \<Rightarrow> int \<Rightarrow> int \<Rightarrow> int list \<Rightarrow> SquareType \<Rightarrow>
    SquareType res" where
  "near_known_row g x y dy [] t = ok t"
| "near_known_row g x y dy (dx # dxs) t =
     (if contains g (x + dx) (y + dy)
      then rbind (at g (x + dx) (y + dy)) (\<lambda>v.
             if v \<noteq> Unknown then ok NearKnownSquare else near_known_row g x y dy dxs t)
      else near_known_row g x y dy dxs t)"

definition classify :: "PlayerKnowledge Grid \<Rightarrow> int \<Rightarrow> int \<Rightarrow> int \<Rightarrow> SquareType res" where
  "classify g i x y =
     rbind (get_index g i) (\<lambda>v.
       if v \<noteq> Unknown then ok KnownSquare
       else foldM (\<lambda>t dy. near_known_row g x y dy [-1, 0, 1] t) InUnknownRegion [-1, 0, 1])"

definition in_input_set :: "PlayerKnowledge Grid \<Rightarrow> int \<Rightarrow> int \<Rightarrow> val_t \<Rightarrow> int \<Rightarrow> int \<Rightarrow> int \<Rightarrow>
    bool res" where
  "in_input_set g setx sety m i x y =
     rbind (get_index g i) (\<lambda>v.
       ok ((m = 0 \<and> v = Unknown) \<or>
           (x \<ge> setx \<and> x < setx + 3 \<and> y \<ge> sety \<and> y < sety + 3 \<and>
            m AND push_bit (nat ((y - sety) * 3 + (x - setx))) 1 \<noteq> 0)))"

definition build_squarelist :: "'r RandomOps \<Rightarrow> GameData \<Rightarrow> PlayerKnowledge Grid \<Rightarrow> int \<Rightarrow> int \<Rightarrow>
    val_t \<Rightarrow> 'r \<Rightarrow> (PerturbSquare list \<times> 'r) res" where
  "build_squarelist R ctx g setx sety m rng =
     rbind (foldM (\<lambda>sqlist i.
              rbind (idx2pt g i) (\<lambda>(x, y).
                if \<bar>y - p_sy (gd_params ctx)\<bar> \<le> 1 \<and> \<bar>x - p_sx (gd_params ctx)\<bar> \<le> 1 then ok sqlist
                else rbind (in_input_set g setx sety m i x y) (\<lambda>inside.
                  if inside then ok sqlist
                  else rbind (classify g i x y) (\<lambda>t.
                    ok (sqlist @ [\<lparr>sq_type = t, sq_x = x, sq_y = y\<rparr>])))))
            [] (indices g))
       (\<lambda>sqlist. ok (shuffle_groups R rng (sort_by square_less sqlist)))"

text \<open>The squares of a 3x3 window in the order of the loops: \<open>dy\<close> outside, \<open>dx\<close> inside.\<close>

definition window_offsets :: "(int \<times> int) list" where
  "window_offsets = [(0, 0), (1, 0), (2, 0), (0, 1), (1, 1), (2, 1), (0, 2), (1, 2), (2, 2)]"

definition count_full_and_empty :: "SquareSet \<Rightarrow> bool Grid \<Rightarrow> (nat \<times> nat) res" where
  "count_full_and_empty s mines =
     foldM (\<lambda>(nfull, nempty) (dx, dy).
        if ss_mask s AND pt2mf dx dy \<noteq> 0 then
          assert (ss_x s + dx < grid_width mines)
            (assert (ss_y s + dy < grid_height mines)
              (rbind (at mines (ss_x s + dx) (ss_y s + dy)) (\<lambda>mine.
                 if mine then ok (nfull + 1, nempty) else ok (nfull, nempty + 1))))
        else ok (nfull, nempty))
      (0, 0) window_offsets"

definition count_full_and_empty_among_unknown_squares ::
    "PlayerKnowledge Grid \<Rightarrow> bool Grid \<Rightarrow> (nat \<times> nat) res" where
  "count_full_and_empty_among_unknown_squares g mines =
     foldM (\<lambda>(nfull, nempty) i.
        rbind (at_index g i) (\<lambda>v.
          if v = Unknown then
            rbind (at_index mines i) (\<lambda>mine.
              if mine then ok (nfull + 1, nempty) else ok (nfull, nempty + 1))
          else ok (nfull, nempty)))
      (0, 0) (indices g)"

definition build_fill_list :: "'r RandomOps \<Rightarrow> PlayerKnowledge Grid \<Rightarrow> bool Grid \<Rightarrow> SquareSet \<Rightarrow>
    nat \<Rightarrow> 'r \<Rightarrow> (int list \<times> 'r) res" where
  "build_fill_list R g mines inputset size' rng =
     assert (size' \<noteq> 0)
       (rbind
          (if ss_mask inputset \<noteq> 0 then
             foldM (\<lambda>filllist (dx, dy).
                if ss_mask inputset AND pt2mf dx dy \<noteq> 0 then
                  assert (ss_x inputset + dx \<le> grid_width g)
                    (assert (ss_y inputset + dy \<le> grid_height g)
                      (rbind (at mines (ss_x inputset + dx) (ss_y inputset + dy)) (\<lambda>mine.
                         if \<not> mine
                         then ok (filllist @ [pt2idx g (ss_x inputset + dx) (ss_y inputset + dy)])
                         else ok filllist)))
                else ok filllist)
              [] window_offsets
           else
             foldM (\<lambda>filllist i.
                rbind (at_index g i) (\<lambda>v.
                  if v = Unknown then
                    rbind (at_index mines i) (\<lambda>mine.
                      if \<not> mine then ok (filllist @ [i]) else ok filllist)
                  else ok filllist))
              [] (indices g))
          (\<lambda>filllist.
             assert (length filllist \<ge> size')
               (assert (length filllist > size')
                 (let (shuffled, rng') = shuffle R rng filllist
                  in ok (take size' shuffled, rng')))))"

text \<open>
  \<open>apply_changes\<close>: one perturbation, then the list.  The loops over the neighbours have
  \<open>dy\<close> outside and \<open>dx\<close> inside.
\<close>

definition neighbour_offsets :: "(int \<times> int) list" where
  "neighbour_offsets =
     [(-1, -1), (0, -1), (1, -1), (-1, 0), (0, 0), (1, 0), (-1, 1), (0, 1), (1, 1)]"

definition count_mines_around :: "PlayerKnowledge Grid \<Rightarrow> bool Grid \<Rightarrow> int \<Rightarrow> int \<Rightarrow> int res" where
  "count_mines_around g mines x y =
     foldM (\<lambda>minecount (dx2, dy2).
        if contains g (x + dx2) (y + dy2) then
          rbind (at mines (x + dx2) (y + dy2)) (\<lambda>mine.
            ok (if mine then minecount + 1 else minecount))
        else ok minecount)
      0 neighbour_offsets"

definition apply_change :: "PlayerKnowledge Grid \<times> bool Grid \<Rightarrow> Perturbation \<Rightarrow>
    (PlayerKnowledge Grid \<times> bool Grid) res" where
  "apply_change gm p =
     (let x = pb_x p; y = pb_y p; delta = pb_delta p in
      rbind (at (snd gm) x y) (\<lambda>mine.
        assert ((delta = Cleared) \<noteq> (mine = False))
          (rbind (set_xy (snd gm) x y (delta = ChangedToMine)) (\<lambda>mines.
             rbind
               (foldM (\<lambda>g (dx, dy).
                  if contains g (x + dx) (y + dy) then
                    rbind (at g (x + dx) (y + dy)) (\<lambda>v.
                      if v \<noteq> Unknown then
                        (if dx = 0 \<and> dy = 0 then
                           (if delta = ChangedToMine then set_xy g x y MarkedAsMine
                            else rbind (count_mines_around g mines x y) (\<lambda>minecount.
                                   set_xy g x y minecount))
                         else if v \<ge> Mine0 then set_xy g (x + dx) (y + dy) (v + delta_int delta)
                         else ok g)
                      else ok g)
                  else ok g)
                (fst gm) neighbour_offsets)
               (\<lambda>g. ok (g, mines))))))"

definition apply_changes :: "PlayerKnowledge Grid \<Rightarrow> bool Grid \<Rightarrow> Perturbation list \<Rightarrow>
    (PlayerKnowledge Grid \<times> bool Grid) res" where
  "apply_changes g mines perturbations = foldM apply_change (g, mines) perturbations"

text \<open>
  The loop of \<open>mineperturb\<close> that collects the squares to fill and the squares to empty
  and stops as soon as one of the two lists has the wanted size.
\<close>

fun collect_squares :: "bool Grid \<Rightarrow> nat \<Rightarrow> nat \<Rightarrow> PerturbSquare list \<Rightarrow>
    PerturbSquare list \<Rightarrow> PerturbSquare list \<Rightarrow> (PerturbSquare list \<times> PerturbSquare list) res" where
  "collect_squares mines nfull nempty [] tofill toempty = ok (tofill, toempty)"
| "collect_squares mines nfull nempty (sq # sqs) tofill toempty =
     rbind (at mines (sq_x sq) (sq_y sq)) (\<lambda>mine.
       let tofill' = (if mine then tofill else tofill @ [sq]);
           toempty' = (if mine then toempty @ [sq] else toempty)
       in if length tofill' = nfull \<or> length toempty' = nempty then ok (tofill', toempty')
          else collect_squares mines nfull nempty sqs tofill' toempty')"

definition change_for :: "bool \<Rightarrow> Change" where
  "change_for square_is_mined = (if square_is_mined then Cleared else ChangedToMine)"

definition near_start :: "GameData \<Rightarrow> Perturbation \<Rightarrow> bool" where
  "near_start ctx p \<longleftrightarrow>
     \<bar>pb_x p - p_sx (gd_params ctx)\<bar> \<le> 1 \<and> \<bar>pb_y p - p_sy (gd_params ctx)\<bar> \<le> 1"

text \<open>
  The changes of \<open>mineperturb\<close> inside the input set: from the fill list if there is one,
  else over the whole input set.
\<close>

definition input_set_changes :: "GameData \<Rightarrow> int \<Rightarrow> int \<Rightarrow> val_t \<Rightarrow> Change \<Rightarrow> int list \<Rightarrow>
    Perturbation list res" where
  "input_set_changes ctx setx sety m change filllist =
     (if filllist \<noteq> [] then
        assert (change = ChangedToMine)
          (foldM (\<lambda>ret i.
             rbind (idx2pt (gd_grid ctx) i) (\<lambda>(x, y).
               ok (ret @ [\<lparr>pb_x = x, pb_y = y, pb_delta = change\<rparr>])))
           [] filllist)
      else if m \<noteq> 0 then
        foldM (\<lambda>ret (dx, dy).
           if m AND pt2mf dx dy \<noteq> 0 then
             rbind (at (gd_mines ctx) (setx + dx) (sety + dy)) (\<lambda>mine.
               if change = change_for mine
               then ok (ret @ [\<lparr>pb_x = setx + dx, pb_y = sety + dy, pb_delta = change\<rparr>])
               else ok ret)
           else ok ret)
         [] window_offsets
      else
        foldM (\<lambda>ret i.
           rbind (at_index (gd_grid ctx) i) (\<lambda>v.
             if v = Unknown then
               rbind (at_index (gd_mines ctx) i) (\<lambda>mine.
                 if change = change_for mine
                 then rbind (idx2pt (gd_grid ctx) i) (\<lambda>(x, y).
                        ok (ret @ [\<lparr>pb_x = x, pb_y = y, pb_delta = change\<rparr>]))
                 else ok ret)
             else ok ret))
         [] (indices (gd_grid ctx)))"

text \<open>
  \<open>mineperturb\<close>.  Its parameter \<open>grid\<close> is always the grid of the game itself, so the
  model takes the game only.  The result is the list of perturbations, the game with the
  changed mines and grid, and the random engine.  The assertion that \<open>toempty\<close> and
  \<open>tofill\<close> are empty follows a move and a \<open>clear\<close> and cannot fail.
\<close>

definition mineperturb :: "'r RandomOps \<Rightarrow> GameData \<Rightarrow> int \<Rightarrow> int \<Rightarrow> val_t \<Rightarrow> 'r \<Rightarrow> bool \<Rightarrow>
    (Perturbation list \<times> GameData \<times> 'r) res" where
  "mineperturb R ctx setx sety m rng allow_big_perturbs =
     (if m = 0 \<and> \<not> allow_big_perturbs then ok ([], ctx, rng)
      else
        rbind (if m \<noteq> 0
               then count_full_and_empty \<lparr>ss_x = setx, ss_y = sety, ss_mask = m\<rparr> (gd_mines ctx)
               else count_full_and_empty_among_unknown_squares (gd_grid ctx) (gd_mines ctx))
          (\<lambda>(nfull, nempty).
        rbind (build_squarelist R ctx (gd_grid ctx) setx sety m rng) (\<lambda>(sqlist, rng1).
        rbind (collect_squares (gd_mines ctx) nfull nempty sqlist [] []) (\<lambda>(tofill, toempty).
        rbind (if length tofill \<noteq> nfull \<and> length toempty \<noteq> nempty
               then build_fill_list R (gd_grid ctx) (gd_mines ctx)
                      \<lparr>ss_x = setx, ss_y = sety, ss_mask = m\<rparr> (length toempty) rng1
               else ok ([], rng1))
          (\<lambda>(filllist, rng2).
        let todo = (if length tofill = nfull then tofill else toempty);
            change = (if length tofill = nfull then ChangedToMine else Cleared);
            ret1 = map (\<lambda>sq. \<lparr>pb_x = sq_x sq, pb_y = sq_y sq, pb_delta = change\<rparr>) todo
        in
        rbind (input_set_changes ctx setx sety m (opposite change) filllist) (\<lambda>ret2.
        let ret = ret1 @ ret2 in
        assert (length ret = 2 * length todo)
          (assert (\<not> list_ex (near_start ctx) ret)
            (rbind (apply_changes (gd_grid ctx) (gd_mines ctx) ret) (\<lambda>(g, mines).
               ok (ret, ctx\<lparr>gd_grid := g, gd_mines := mines\<rparr>, rng2))))))))))"

text \<open>
  The class \<open>Perturbator\<close> and its subclass \<open>BuiltinPerturbator\<close> of generator.cpp, which
  differ in \<open>reset\<close> and in the flag passed to \<open>mineperturb\<close>.  The random engine that the
  perturbator refers to is passed along separately.
\<close>

record Perturbator =
  pt_use_count :: int
  pt_builtin :: bool
  pt_allow_big_perturbs :: bool

definition do_perturb :: "'r RandomOps \<Rightarrow> Perturbator \<Rightarrow> 'r \<Rightarrow> GameData \<Rightarrow> int \<Rightarrow> int \<Rightarrow> val_t \<Rightarrow>
    (Perturbation list \<times> GameData \<times> 'r) res" where
  "do_perturb R pt rng ctx setx sety m =
     mineperturb R ctx setx sety m rng (pt_builtin pt \<and> pt_allow_big_perturbs pt)"

definition perturb :: "'r RandomOps \<Rightarrow> Perturbator \<Rightarrow> 'r \<Rightarrow> GameData \<Rightarrow> int \<Rightarrow> int \<Rightarrow> val_t \<Rightarrow>
    (Perturbation list \<times> Perturbator \<times> 'r \<times> GameData) res" where
  "perturb R pt rng ctx x y m =
     (let pt' = pt\<lparr>pt_use_count := pt_use_count pt + 1\<rparr> in
      rbind (do_perturb R pt' rng ctx x y m) (\<lambda>(ret, ctx', rng').
        ok (ret, pt', rng', ctx')))"

definition perturb_store :: "'r RandomOps \<Rightarrow> Perturbator \<Rightarrow> 'r \<Rightarrow> GameData \<Rightarrow> SetStore \<Rightarrow>
    (Perturbation list \<times> Perturbator \<times> 'r \<times> GameData) res" where
  "perturb_store R pt rng ctx ss =
     (let sssize = setstore_size ss in
      if sssize = 0 then perturb R pt rng ctx (-1) (-1) 0
      else
        let (i, rng') = rng_uniform R rng 0 (sssize - 1) in
        rbind (setstore_at ss i) (\<lambda>s.
          perturb R pt rng' ctx (ss_x s) (ss_y s) (ss_mask s)))"

definition reset :: "int \<Rightarrow> Perturbator \<Rightarrow> Perturbator" where
  "reset ntries pt =
     (if pt_builtin pt
      then pt\<lparr>pt_use_count := 0, pt_allow_big_perturbs := (ntries > 100)\<rparr>
      else pt\<lparr>pt_use_count := 0\<rparr>)"

section \<open>solver.cpp: the solver\<close>

text \<open>
  The list \<open>SquareTodo\<close> of the indices of the newly known squares is a list of integers.
  The counters of the solver are of type \<open>int\<close> in the source; the model takes them as
  unbounded integers, which is the same as long as a grid has fewer than \<open>2^31\<close> squares.
\<close>

definition build_square_todolist :: "PlayerKnowledge Grid \<Rightarrow> int list res" where
  "build_square_todolist g =
     foldM (\<lambda>list i.
        rbind (at_index g i) (\<lambda>v. if v \<noteq> Unknown then ok (list @ [i]) else ok list))
      [] (indices g)"

definition mark_known_squares :: "GameData \<Rightarrow> int list \<Rightarrow> int \<Rightarrow> int \<Rightarrow> val_t \<Rightarrow> bool \<Rightarrow>
    (GameData \<times> int list) res" where
  "mark_known_squares thegame std x y m mine =
     foldM (\<lambda>(game, std) (xx, yy).
        rbind (at (gd_grid game) xx yy) (\<lambda>v.
          if v \<noteq> Unknown then ok (game, std)
          else
            rbind (if mine then set_xy (gd_grid game) xx yy MarkedAsMine
                   else rbind (mineLookup game xx yy) (\<lambda>n. set_xy (gd_grid game) xx yy n))
              (\<lambda>g. ok (game\<lparr>gd_grid := g\<rparr>, std @ [pt2idx g xx yy]))))
      (thegame, std) (foreachSquare \<lparr>ss_x = x, ss_y = y, ss_mask = m\<rparr>)"

definition mark_known_square :: "GameData \<Rightarrow> int list \<Rightarrow> int \<Rightarrow> int \<Rightarrow> bool \<Rightarrow>
    (GameData \<times> int list) res" where
  "mark_known_square thegame std x y mine = mark_known_squares thegame std x y TOP_LEFT mine"

text \<open>The array \<open>neighbors\<close> of \<open>process_newly_known_squares\<close>: a flag and an offset.\<close>

definition neighbors :: "(val_t \<times> int \<times> int) list" where
  "neighbors =
     [(TOP_LEFT, -1, -1), (TOP, 0, -1), (TOP_RIGHT, 1, -1), (LEFT, -1, 0), (RIGHT, 1, 0),
      (BOTTOM_LEFT, -1, 1), (BOTTOM, 0, 1), (BOTTOM_RIGHT, 1, 1)]"

text \<open>
  The loop over the neighbours of a revealed square: the mask of the unknown neighbours
  and the number of mines not yet marked.
\<close>

definition scan_neighbors :: "PlayerKnowledge Grid \<Rightarrow> int \<Rightarrow> int \<Rightarrow> int \<Rightarrow> (val_t \<times> int) res" where
  "scan_neighbors g x y mines0 =
     foldM (\<lambda>(m, mines) (flag, dx, dy).
        if \<not> contains g (x + dx) (y + dy) then ok (m, mines)
        else
          rbind (get_pos g (x + dx) (y + dy)) (\<lambda>v.
            if v = MarkedAsMine then ok (m, mines - 1)
            else if v = Unknown then ok (m OR flag, mines)
            else ok (m, mines)))
      (NONE, mines0) neighbors"

text \<open>
  The second block of the loop body: the known square \<open>(x, y)\<close> with value \<open>v\<close> is removed
  from every set of the store that holds it.
\<close>

definition remove_known_square :: "int \<Rightarrow> int \<Rightarrow> PlayerKnowledge \<Rightarrow> SetStore \<Rightarrow> SetStore res" where
  "remove_known_square x y v ss0 =
     foldM (\<lambda>ss it.
        rbind (deref ss it) (\<lambda>s.
          let newmask = ss_mask (squareset_minus (el_set s)
                                   \<lparr>ss_x = x, ss_y = y, ss_mask = TOP_LEFT\<rparr>);
              newmines = el_mines s - (if v = MarkedAsMine then 1 else 0)
          in rbind (if newmask \<noteq> 0
                    then add (ss_x (el_set s)) (ss_y (el_set s)) newmask newmines ss
                    else ok ss)
               (\<lambda>ss'. erase it ss')))
      ss0 (overlap ss0 x y TOP_LEFT)"

text \<open>\<open>process_newly_known_squares\<close> returns the store; the caller's list is cleared.\<close>

definition process_newly_known_squares :: "int list \<Rightarrow> PlayerKnowledge Grid \<Rightarrow> SetStore \<Rightarrow>
    SetStore res" where
  "process_newly_known_squares squareTodo g ss0 =
     foldM (\<lambda>ss i.
        rbind (idx2pt g i) (\<lambda>(x, y).
        rbind (get_index g i) (\<lambda>v.
        rbind (if v \<ge> Mine0 then
                 rbind (scan_neighbors g x y v) (\<lambda>(m, mines).
                   if m \<noteq> 0 then add (x - 1) (y - 1) m mines ss else ok ss)
               else ok ss)
          (\<lambda>ss1. remove_known_square x y v ss1))))
      ss0 squareTodo"

definition process_next_todo :: "SetStoreElement \<Rightarrow> GameData \<Rightarrow> int list \<Rightarrow> SetStore \<Rightarrow>
    (GameData \<times> int list \<times> SetStore) res" where
  "process_next_todo s thegame stodo0 ss0 =
     (if el_mines s = 0 \<or> el_mines s = count (ss_mask (el_set s)) then
        rbind (mark_known_squares thegame stodo0 (ss_x (el_set s)) (ss_y (el_set s))
                 (ss_mask (el_set s)) (el_mines s \<noteq> 0))
          (\<lambda>(game, stodo). ok (game, stodo, ss0))
      else
        foldM (\<lambda>(game, stodo, ss) it.
           rbind (deref ss it) (\<lambda>s2.
             let swing = ss_mask (squareset_minus (el_set s) (el_set s2));
                 s2wing = ss_mask (squareset_minus (el_set s2) (el_set s));
                 swc = count swing;
                 s2wc = count s2wing
             in
             if swc = el_mines s - el_mines s2 \<or> s2wc = el_mines s2 - el_mines s then
               rbind (mark_known_squares game stodo (ss_x (el_set s)) (ss_y (el_set s)) swing
                        (swc = el_mines s - el_mines s2)) (\<lambda>(game1, stodo1).
               rbind (mark_known_squares game1 stodo1 (ss_x (el_set s2)) (ss_y (el_set s2)) s2wing
                        (s2wc = el_mines s2 - el_mines s)) (\<lambda>(game2, stodo2).
                 ok (game2, stodo2, ss)))
             else if swc = 0 \<and> s2wc \<noteq> 0 then
               assert (el_mines s2 > el_mines s)
                 (rbind (add (ss_x (el_set s2)) (ss_y (el_set s2)) s2wing
                           (el_mines s2 - el_mines s) ss)
                    (\<lambda>ss'. ok (game, stodo, ss')))
             else if s2wc = 0 \<and> swc \<noteq> 0 then
               assert (el_mines s > el_mines s2)
                 (rbind (add (ss_x (el_set s)) (ss_y (el_set s)) swing
                           (el_mines s - el_mines s2) ss)
                    (\<lambda>ss'. ok (game, stodo, ss')))
             else ok (game, stodo, ss)))
         (thegame, stodo0, ss0)
         (overlap ss0 (ss_x (el_set s)) (ss_y (el_set s)) (ss_mask (el_set s))))"

text \<open>
  The virtual recursion of \<open>attempt_global_deduction\<close>.  The loop \<open>while (--cursor >= 0 &&
  !setused[cursor])\<close> is \<open>backtrack\<close>: from the cursor, the index of the nearest set in the
  union below it, or -1.
\<close>

fun backtrack :: "bool list \<Rightarrow> nat \<Rightarrow> int" where
  "backtrack setused 0 = -1"
| "backtrack setused (Suc c) = (if \<not> setused ! c then backtrack setused c else int c)"

text \<open>
  The loop \<open>for (int cursor = 0;;)\<close>, with a bound on the number of its iterations: no
  result within the bound is \<open>None\<close>.  It ends with the flags of a union that allows a
  deduction and the mines left outside it, or with nothing when all unions have been tried.
  The assertion \<open>assert(setused[cursor])\<close> follows the loop that stops at such a cursor.
\<close>

fun gd_search :: "nat \<Rightarrow> SetStoreElement list \<Rightarrow> nat \<Rightarrow> bool list \<Rightarrow> int \<Rightarrow> int \<Rightarrow>
    (bool list \<times> int) option res" where
  "gd_search 0 sets cursor setused minesleft squaresleft = None"
| "gd_search (Suc fuel) sets cursor setused minesleft squaresleft =
     (if cursor < length sets then
        let ok' = \<not> list_ex (\<lambda>i. setused ! i \<and>
                     ss_mask (squareset_and (el_set (sets ! cursor)) (el_set (sets ! i))) \<noteq> 0)
                   [0..<cursor]
        in gd_search fuel sets (cursor + 1) (setused[cursor := ok'])
             (if ok' then minesleft - el_mines (sets ! cursor) else minesleft)
             (if ok' then squaresleft - count (ss_mask (el_set (sets ! cursor))) else squaresleft)
      else if squaresleft > 0 \<and> (minesleft = 0 \<or> minesleft = squaresleft) then
        ok (Some (setused, minesleft))
      else
        let c = backtrack setused cursor in
        if c \<ge> 0 then
          gd_search fuel sets (nat c + 1) (setused[nat c := False])
            (minesleft + el_mines (sets ! nat c))
            (squaresleft + count (ss_mask (el_set (sets ! nat c))))
        else ok None)"

text \<open>Is the square \<open>(x, y)\<close> outside the union of the sets in use?\<close>

definition outside_union :: "SetStoreElement list \<Rightarrow> bool list \<Rightarrow> int \<Rightarrow> int \<Rightarrow> bool" where
  "outside_union sets setused x y \<longleftrightarrow>
     \<not> list_ex (\<lambda>j. setused ! j \<and>
          ss_mask (squareset_and (el_set (sets ! j))
                     \<lparr>ss_x = x, ss_y = y, ss_mask = TOP_LEFT\<rparr>) \<noteq> 0)
        [0..<length sets]"

definition attempt_global_deduction :: "nat \<Rightarrow> int \<Rightarrow> int \<Rightarrow> int \<Rightarrow> GameData \<Rightarrow> int list \<Rightarrow>
    SetStore \<Rightarrow> (bool \<times> GameData \<times> int list) res" where
  "attempt_global_deduction fuel n squaresleft minesleft thegame stodo0 ss =
     (if minesleft = 0 \<or> minesleft = squaresleft then
        rbind (foldM (\<lambda>(game, stodo) i.
                 rbind (get_index (gd_grid game) i) (\<lambda>v.
                   if v = Unknown then
                     rbind (idx2pt (gd_grid game) i) (\<lambda>(x, y).
                       mark_known_square game stodo x y (minesleft \<noteq> 0))
                   else ok (game, stodo)))
               (thegame, stodo0) (indices (gd_grid thegame)))
          (\<lambda>(game, stodo). ok (True, game, stodo))
      else
        let sets = ss_elements ss;
            nsets = setstore_size ss
        in
        if nsets > 10 then ok (False, thegame, stodo0)
        else
          rbind (gd_search fuel sets 0 (replicate 10 False) minesleft squaresleft) (\<lambda>r.
            case r of
              None \<Rightarrow> ok (False, thegame, stodo0)
            | Some (setused, minesleft') \<Rightarrow>
                rbind (foldM (\<lambda>(game, stodo) i.
                         rbind (get_index (gd_grid game) i) (\<lambda>v.
                           if v = Unknown then
                             rbind (idx2pt (gd_grid game) i) (\<lambda>(x, y).
                               if outside_union sets setused x y
                               then mark_known_square game stodo x y (minesleft' \<noteq> 0)
                               else ok (game, stodo))
                           else ok (game, stodo)))
                       (thegame, stodo0) (indices (gd_grid thegame)))
                  (\<lambda>(game, stodo). ok (True, game, stodo))))"

text \<open>
  \<open>perturb_grid\<close>.  The perturbator and the random engine it refers to are objects outside
  the solver; they are passed along and returned.
\<close>

definition perturb_grid :: "'r RandomOps \<Rightarrow> Perturbator \<Rightarrow> 'r \<Rightarrow> GameData \<Rightarrow> int list \<Rightarrow>
    SetStore \<Rightarrow> (bool \<times> Perturbator \<times> 'r \<times> GameData \<times> int list \<times> SetStore) res" where
  "perturb_grid R perturbator rng thegame stodo0 ss0 =
     rbind (perturb_store R perturbator rng thegame ss0) (\<lambda>(perturbations, pt, rng', game).
       if perturbations = [] then ok (False, pt, rng', game, stodo0, ss0)
       else
         rbind (foldM (\<lambda>(stodo, ss) p.
                  rbind (if pb_delta p = Cleared then
                           rbind (at (gd_grid game) (pb_x p) (pb_y p)) (\<lambda>v.
                             if v \<noteq> Unknown
                             then ok (stodo @ [pt2idx (gd_grid game) (pb_x p) (pb_y p)])
                             else ok stodo)
                         else ok stodo) (\<lambda>stodo'.
                  rbind (foldM (\<lambda>ss1 it.
                           add_todo it
                             (ss1\<lparr>ss_elements :=
                                    map_update it
                                      (\<lambda>e. e\<lparr>el_mines := el_mines e + delta_int (pb_delta p)\<rparr>)
                                      (ss_elements ss1)\<rparr>))
                         ss (overlap ss (pb_x p) (pb_y p) TOP_LEFT)) (\<lambda>ss'.
                    ok (stodo', ss'))))
                (stodo0, ss0) perturbations)
           (\<lambda>(stodo, ss). ok (True, pt, rng', game, stodo, ss)))"

text \<open>
  The loop \<open>for (;;)\<close> of \<open>Solver::solve\<close>, with a bound on the number of its iterations.
  The flag \<open>has_perturbator\<close> says whether the pointer \<open>m_perturbator\<close> of the solver is
  set; it then refers to the perturbator that is passed along.
\<close>

fun solve_loop :: "'r RandomOps \<Rightarrow> nat \<Rightarrow> int \<Rightarrow> bool \<Rightarrow> Perturbator \<Rightarrow> 'r \<Rightarrow> GameData \<Rightarrow>
    int list \<Rightarrow> SetStore \<Rightarrow> (Perturbator \<times> 'r \<times> GameData) res" where
  "solve_loop R 0 n has_perturbator pt rng game stodo ss = None"
| "solve_loop R (Suc fuel) n has_perturbator pt rng game stodo ss =
     rbind (process_newly_known_squares stodo (gd_grid game) ss) (\<lambda>ss1.
     rbind (next_todo ss1) (\<lambda>(todo, ss2).
       case todo of
         Some s \<Rightarrow>
           rbind (process_next_todo s game [] ss2) (\<lambda>(game', stodo', ss').
             solve_loop R fuel n has_perturbator pt rng game' stodo' ss')
       | None \<Rightarrow>
           let squaresleft = int (count_list (grid_data (gd_grid game)) Unknown);
               minesleft = n - int (count_list (grid_data (gd_grid game)) MarkedAsMine)
           in
           if squaresleft = 0 then assert (minesleft = 0) (ok (pt, rng, game))
           else
             rbind (if n \<ge> 0
                    then attempt_global_deduction fuel n squaresleft minesleft game [] ss2
                    else ok (False, game, [])) (\<lambda>(success, game', stodo').
               if success then solve_loop R fuel n has_perturbator pt rng game' stodo' ss2
               else if has_perturbator then
                 rbind (perturb_grid R pt rng game' stodo' ss2)
                   (\<lambda>(success', pt', rng', game'', stodo'', ss'').
                     if success'
                     then solve_loop R fuel n has_perturbator pt' rng' game'' stodo'' ss''
                     else ok (pt', rng', game''))
               else ok (pt, rng, game'))))"

definition solve :: "'r RandomOps \<Rightarrow> nat \<Rightarrow> bool \<Rightarrow> Perturbator \<Rightarrow> 'r \<Rightarrow> GameData \<Rightarrow>
    (bool \<times> Perturbator \<times> 'r \<times> GameData) res" where
  "solve R fuel has_perturbator pt rng game =
     (let n = int (count_list (grid_data (gd_mines game)) True) in
      rbind (build_square_todolist (gd_grid game)) (\<lambda>stodo.
      rbind (solve_loop R fuel n has_perturbator pt rng game stodo SetStore_empty)
        (\<lambda>(pt', rng', game').
          ok (Unknown \<notin> set (grid_data (gd_grid game')), pt', rng', game'))))"

section \<open>generator.cpp\<close>

text \<open>The possible locations of the mines: every square not within one square of \<open>(x, y)\<close>.\<close>

definition minespos :: "bool Grid \<Rightarrow> int \<Rightarrow> int \<Rightarrow> int list" where
  "minespos ret x y =
     concat (map (\<lambda>i. concat (map (\<lambda>j.
        if \<bar>i - y\<bar> > 1 \<or> \<bar>j - x\<bar> > 1 then [pt2idx ret j i] else [])
        [0..grid_width ret - 1])) [0..grid_height ret - 1])"

text \<open>
  \<open>std::vector::resize(n)\<close> with \<open>n\<close> converted from \<open>int\<close>: a negative \<open>n\<close> is a size
  that no vector can have, and the call throws; a vector that is too short is filled up
  with zeros.
\<close>

definition resize :: "int \<Rightarrow> int list \<Rightarrow> int list res" where
  "resize n xs =
     (if n < 0 then failure OutOfRange
      else ok (take (nat n) xs @ replicate (nat n - length xs) 0))"

definition place_mines :: "'r RandomOps \<Rightarrow> bool Grid \<Rightarrow> int \<Rightarrow> int \<Rightarrow> int \<Rightarrow> 'r \<Rightarrow>
    (bool Grid \<times> 'r) res" where
  "place_mines R ret0 n x y rng =
     (let ret = ret0\<lparr>grid_data := replicate (length (grid_data ret0)) False\<rparr>;
          (shuffled, rng') = shuffle R rng (minespos ret x y)
      in rbind (resize n shuffled) (\<lambda>kept.
         rbind (foldM (\<lambda>r i. set_index r i True) ret kept) (\<lambda>ret'. ok (ret', rng'))))"

text \<open>
  The inner loop \<open>for (;;)\<close> of \<open>minegen\<close>, which runs the solver on the fake game until
  it fails, needs as many perturbations as before, or needs none; with a bound on the number
  of iterations.  The result is \<open>success\<close>, the game, the perturbator and the random engine.
\<close>

fun solve_attempts :: "'r RandomOps \<Rightarrow> nat \<Rightarrow> int \<Rightarrow> int \<Rightarrow> int \<Rightarrow> int \<Rightarrow> GameData \<Rightarrow>
    Perturbator \<Rightarrow> 'r \<Rightarrow> (bool \<times> GameData \<times> Perturbator \<times> 'r) res" where
  "solve_attempts R 0 ntries x y nbperturbs game pt rng = None"
| "solve_attempts R (Suc fuel) ntries x y nbperturbs game pt rng =
     (let g0 = (gd_grid game)\<lparr>grid_data := replicate (length (grid_data (gd_grid game))) Unknown\<rparr>
      in
      rbind (mineLookup (game\<lparr>gd_grid := g0\<rparr>) x y) (\<lambda>v.
      rbind (set_xy g0 x y v) (\<lambda>g1.
      rbind (at g1 x y) (\<lambda>v'.
        assert (v' = Mine0)
          (rbind (solve R fuel True (reset ntries pt) rng (game\<lparr>gd_grid := g1\<rparr>))
             (\<lambda>(solved, pt', rng', game').
               if \<not> solved \<or> (nbperturbs \<ge> 0 \<and> pt_use_count pt' \<ge> nbperturbs)
               then ok (False, game', pt', rng')
               else if pt_use_count pt' = 0 then ok (True, game', pt', rng')
               else solve_attempts R fuel ntries x y (pt_use_count pt') game' pt' rng'))))))"

text \<open>
  The fake game of \<open>minegen\<close>.  The source leaves the width, the height, the mine count and
  the seed of its parameters uninitialised and never reads them; the model stores the values
  of the call there.
\<close>

definition fake_game :: "bool Grid \<Rightarrow> PlayerKnowledge Grid \<Rightarrow> int \<Rightarrow> int \<Rightarrow> int \<Rightarrow> GameData" where
  "fake_game ret g n x y =
     \<lparr>gd_params = \<lparr>p_width = grid_width ret, p_height = grid_height ret, p_minecount = n,
                   p_unique = True, p_sx = x, p_sy = y, p_seed = 0\<rparr>,
      gd_seed = 0, gd_mines = ret, gd_grid = g, gd_dead = False, gd_won = False\<rparr>"

text \<open>The loop \<open>do ... while (!success)\<close> of \<open>minegen\<close>, with a bound on its iterations.\<close>

fun minegen_loop :: "'r RandomOps \<Rightarrow> nat \<Rightarrow> bool Grid \<Rightarrow> int \<Rightarrow> int \<Rightarrow> int \<Rightarrow> bool \<Rightarrow> 'r \<Rightarrow>
    Perturbator \<Rightarrow> int \<Rightarrow> (bool Grid \<times> 'r \<times> Perturbator) res" where
  "minegen_loop R 0 ret0 n x y unique rng pt ntries0 = None"
| "minegen_loop R (Suc fuel) ret0 n x y unique rng pt ntries0 =
     (let ntries = ntries0 + 1 in
      rbind (place_mines R ret0 n x y rng) (\<lambda>(ret, rng1).
        if unique then
          rbind (Grid_new (grid_width ret) (grid_height ret) Unknown) (\<lambda>g.
          rbind (solve_attempts R fuel ntries x y (-1) (fake_game ret g n x y) pt rng1)
            (\<lambda>(success, game, pt', rng').
              if success then ok (gd_mines game, rng', pt')
              else minegen_loop R fuel ret n x y unique rng' pt' ntries))
        else ok (ret, rng1, pt)))"

definition minegen :: "'r RandomOps \<Rightarrow> nat \<Rightarrow> int \<Rightarrow> int \<Rightarrow> int \<Rightarrow> int \<Rightarrow> int \<Rightarrow> bool \<Rightarrow> 'r \<Rightarrow>
    Perturbator \<Rightarrow> (bool Grid \<times> 'r \<times> Perturbator) res" where
  "minegen R fuel w h n x y unique rng pt =
     rbind (Grid_new w h False) (\<lambda>ret. minegen_loop R fuel ret n x y unique rng pt 0)"

text \<open>
  A default-constructed \<open>Generator\<close>: its seed, its random engine and the
  \<open>BuiltinPerturbator\<close> it owns, which refers to that engine.  \<open>seed()\<close> stores a value
  drawn from the random device or from \<open>std::rand\<close>; this value is the parameter \<open>drawn\<close>.
\<close>

record 'r Generator =
  m_seed :: "32 word"
  m_rng :: 'r
  m_perturbator :: Perturbator

definition seed :: "32 word \<Rightarrow> 'r Generator \<Rightarrow> 'r Generator" where
  "seed drawn gen = gen\<lparr>m_seed := drawn\<rparr>"

definition generate :: "'r RandomOps \<Rightarrow> nat \<Rightarrow> 32 word \<Rightarrow> 'r Generator \<Rightarrow> GameParams \<Rightarrow>
    (bool Grid \<times> 'r Generator) res" where
  "generate R fuel drawn gen0 params =
     (let gen = (if p_seed params \<noteq> 0 then gen0
                 else if m_seed gen0 = 0 then seed drawn gen0 else gen0);
          s = (if p_seed params \<noteq> 0 then p_seed params else m_seed gen)
      in
      rbind (minegen R fuel (p_width params) (p_height params) (p_minecount params)
               (p_sx params) (p_sy params) (p_unique params) (rng_seed R s) (m_perturbator gen))
        (\<lambda>(ret, rng, pt). ok (ret, gen\<lparr>m_rng := rng, m_perturbator := pt\<rparr>)))"

section \<open>Auxiliary definitions for the proofs\<close>

text \<open>One line of \<open>popcount\<close> on the integers, and the number of bits of a 2, 4, 8 and 16-bit value.\<close>

definition swar :: "int \<Rightarrow> int \<Rightarrow> nat \<Rightarrow> int \<Rightarrow> int" where
  "swar c d k n = (n AND c) + drop_bit k (n AND d)"

definition bits2 :: "int \<Rightarrow> int" where
  "bits2 b = of_bool (bit b 0) + of_bool (bit b 1)"

definition bits4 :: "int \<Rightarrow> int" where
  "bits4 b = bits2 (take_bit 2 b) + bits2 (drop_bit 2 b)"

definition bits8 :: "int \<Rightarrow> int" where
  "bits8 b = bits4 (take_bit 4 b) + bits4 (drop_bit 4 b)"

definition bits16 :: "int \<Rightarrow> int" where
  "bits16 b = bits8 (take_bit 8 b) + bits8 (drop_bit 8 b)"


text \<open>Whether the mask has the square at column \<open>dx\<close> and row \<open>dy\<close> of its window.\<close>

definition cell :: "val_t \<Rightarrow> int \<Rightarrow> int \<Rightarrow> bool" where
  "cell m dx dy \<longleftrightarrow> bit m (nat (3 * dy + dx))"

text \<open>The elements of a store are in the strict order of their keys, as in a \<open>std::map\<close>.\<close>

definition store_sorted :: "SetStore \<Rightarrow> bool" where
  "store_sorted ss \<longleftrightarrow> sorted_wrt squareset_less (map el_set (ss_elements ss))"

text \<open>A sequence of calls of \<open>SetStore::add\<close>, each with its \<open>x\<close>, \<open>y\<close>, mask and mine count.\<close>

definition adds :: "(int \<times> int \<times> val_t \<times> int) list \<Rightarrow> SetStore \<Rightarrow> SetStore res" where
  "adds calls ss = foldM (\<lambda>s (x, y, m, n). add x y m n s) ss calls"

text \<open>The grid that a call returns, without the state that comes with it.\<close>

definition returned_grid :: "(bool Grid \<times> 'a) res \<Rightarrow> bool Grid res" where
  "returned_grid r = rbind r (\<lambda>(g, rest). ok g)"

text \<open>
  The order of results in the number of iterations allowed: a call that does not return
  within the bound is below every result.
\<close>

definition res_le :: "'a res \<Rightarrow> 'a res \<Rightarrow> bool" where
  "res_le r r' \<longleftrightarrow> r = None \<or> r = r'"

text \<open>
  A random engine for examples: its state is a counter, a shuffle rotates the elements by
  the counter, and a draw from a range takes the counter modulo the size of the range.
\<close>

definition rotating_random :: "nat RandomOps" where
  "rotating_random =
     \<lparr>rng_seed = unat,
      rng_shuffle = (\<lambda>r n. (rotate r [0..<n], Suc r)),
      rng_uniform = (\<lambda>r a b. (a + int r mod (b - a + 1), Suc r))\<rparr>"

text \<open>A board of four squares in one row, and two states of a generator.\<close>

definition small_params :: GameParams where
  "small_params =
     \<lparr>p_width = 4, p_height = 1, p_minecount = 1, p_unique = True, p_sx = 0, p_sy = 0,
      p_seed = 7\<rparr>"

definition fresh_generator :: "nat Generator" where
  "fresh_generator =
     \<lparr>m_seed = 0, m_rng = 0,
      m_perturbator = \<lparr>pt_use_count = 0, pt_builtin = True, pt_allow_big_perturbs = False\<rparr>\<rparr>"

definition used_generator :: "nat Generator" where
  "used_generator =
     \<lparr>m_seed = 5, m_rng = 42,
      m_perturbator = \<lparr>pt_use_count = 3, pt_builtin = True, pt_allow_big_perturbs = True\<rparr>\<rparr>"

text \<open>
  A grid of the data model: a positive width, and as many values as squares.  \<open>cellv\<close> is
  the value at a position, \<open>gset\<close> the grid with one value replaced, \<open>cells\<close> the list of
  the positions of a grid.
\<close>

definition grid_wf :: "'a Grid \<Rightarrow> bool" where
  "grid_wf g \<longleftrightarrow>
     0 < grid_width g \<and> 0 \<le> grid_height g \<and>
     int (length (grid_data g)) = grid_width g * grid_height g"

definition cellv :: "'a Grid \<Rightarrow> int \<Rightarrow> int \<Rightarrow> 'a" where
  "cellv g x y = grid_data g ! nat (y * grid_width g + x)"

definition gset :: "'a Grid \<Rightarrow> int \<Rightarrow> int \<Rightarrow> 'a \<Rightarrow> 'a Grid" where
  "gset g x y v = g\<lparr>grid_data := (grid_data g)[nat (y * grid_width g + x) := v]\<rparr>"

definition cells :: "'a Grid \<Rightarrow> (int \<times> int) list" where
  "cells g = concat (map (\<lambda>y. map (\<lambda>x. (x, y)) [0..grid_width g - 1]) [0..grid_height g - 1])"

text \<open>
  The number of mines of a grid, as \<open>Solver::solve\<close> counts it.  Two grids have the same
  shape when their widths, heights and numbers of values agree.  \<open>preserved\<close> relates a game
  to a later state of it: nothing but the values of its two grids has changed, and the number
  of mines is the same.
\<close>

definition mine_total :: "bool Grid \<Rightarrow> int" where
  "mine_total mines = int (count_list (grid_data mines) True)"

definition same_shape :: "'a Grid \<Rightarrow> 'a Grid \<Rightarrow> bool" where
  "same_shape g g' \<longleftrightarrow>
     grid_width g' = grid_width g \<and> grid_height g' = grid_height g \<and>
     length (grid_data g') = length (grid_data g)"

definition preserved :: "GameData \<Rightarrow> GameData \<Rightarrow> bool" where
  "preserved game game' \<longleftrightarrow>
     gd_params game' = gd_params game \<and> gd_seed game' = gd_seed game \<and>
     gd_dead game' = gd_dead game \<and> gd_won game' = gd_won game \<and>
     same_shape (gd_grid game) (gd_grid game') \<and> same_shape (gd_mines game) (gd_mines game') \<and>
     mine_total (gd_mines game') = mine_total (gd_mines game)"

text \<open>
  The grid at the start of a game: every square unknown, except the starting square, which
  shows that it has no mine around it.  \<open>start_of\<close> is this grid in the shape of a given
  grid.
\<close>

definition start_grid :: "int \<Rightarrow> int \<Rightarrow> int \<Rightarrow> int \<Rightarrow> PlayerKnowledge Grid" where
  "start_grid w h x y =
     \<lparr>grid_width = w, grid_height = h,
      grid_data = (replicate (nat (w * h)) Unknown)[nat (y * w + x) := Mine0]\<rparr>"

definition start_of :: "PlayerKnowledge Grid \<Rightarrow> int \<Rightarrow> int \<Rightarrow> PlayerKnowledge Grid" where
  "start_of g x y =
     g\<lparr>grid_data := (replicate (length (grid_data g)) Unknown)[nat (y * grid_width g + x) := Mine0]\<rparr>"

text \<open>
  The number of mines around a square: \<open>mine_int\<close> is 1 for a square of the grid that
  holds a mine, \<open>mines_in\<close> adds it up over a list of offsets, and \<open>mines_around\<close> is the
  sum over the eight neighbours.  \<open>near x y\<close> holds of the squares within one square of
  \<open>(x, y)\<close>.
\<close>

definition mine_int :: "bool Grid \<Rightarrow> int \<Rightarrow> int \<Rightarrow> int" where
  "mine_int mines x y = (if contains mines x y \<and> cellv mines x y then 1 else 0)"

definition mines_in :: "bool Grid \<Rightarrow> int \<Rightarrow> int \<Rightarrow> (int \<times> int) list \<Rightarrow> int" where
  "mines_in mines x y ds = sum_list (map (\<lambda>(dx, dy). mine_int mines (x + dx) (y + dy)) ds)"

definition around8 :: "(int \<times> int) list" where
  "around8 = [(-1, -1), (0, -1), (1, -1), (-1, 0), (1, 0), (-1, 1), (0, 1), (1, 1)]"

definition mines_around :: "bool Grid \<Rightarrow> int \<Rightarrow> int \<Rightarrow> int" where
  "mines_around mines x y = mines_in mines x y around8"

definition near :: "int \<Rightarrow> int \<Rightarrow> int \<Rightarrow> int \<Rightarrow> bool" where
  "near x y cx cy \<longleftrightarrow> \<bar>cx - x\<bar> \<le> 1 \<and> \<bar>cy - y\<bar> \<le> 1"

text \<open>
  The parameters of a game are in range when the board is not empty, the start is on the
  board, and the mine count is at most the number of squares not within one square of the
  start.
\<close>

definition safe_zone_size :: "int \<Rightarrow> int \<Rightarrow> int \<Rightarrow> int \<Rightarrow> int" where
  "safe_zone_size w h x y =
     int (length (filter (\<lambda>(cx, cy). near x y cx cy)
       (concat (map (\<lambda>cy. map (\<lambda>cx. (cx, cy)) [0..w - 1]) [0..h - 1]))))"

definition params_in_range :: "GameParams \<Rightarrow> bool" where
  "params_in_range p \<longleftrightarrow>
     1 \<le> p_width p \<and> 1 \<le> p_height p \<and>
     0 \<le> p_sx p \<and> p_sx p < p_width p \<and> 0 \<le> p_sy p \<and> p_sy p < p_height p \<and>
     0 \<le> p_minecount p \<and>
     p_minecount p \<le> p_width p * p_height p - safe_zone_size (p_width p) (p_height p) (p_sx p) (p_sy p)"

section \<open>Counting the bits of a mask\<close>

lemma nc_take: "0 \<le> a \<Longrightarrow> 0 \<le> b \<Longrightarrow> take_bit m a + take_bit m b < 2 ^ m \<Longrightarrow>
    take_bit m (a + b) = take_bit m a + take_bit m (b::int)"
  by (smt (verit) take_bit_add take_bit_int_eq_self take_bit_nonnegative)

lemma nc_drop: "0 \<le> a \<Longrightarrow> 0 \<le> b \<Longrightarrow> take_bit m a + take_bit m b < 2 ^ m \<Longrightarrow>
    drop_bit m (a + b) = drop_bit m a + drop_bit m (b::int)"
proof -
  assume a: "0 \<le> a" "0 \<le> b" "take_bit m a + take_bit m b < 2 ^ m"
  have "(a + b) div 2 ^ m = a div 2 ^ m + b div 2 ^ m + (a mod 2 ^ m + b mod 2 ^ m) div 2 ^ m"
    by (rule div_add1_eq)
  moreover have "(a mod 2 ^ m + b mod 2 ^ m) div 2 ^ m = 0"
    using a by (simp add: take_bit_eq_mod div_pos_pos_trivial)
  ultimately show ?thesis by (simp add: drop_bit_eq_div)
qed

lemma swar_take:
  assumes n: "0 \<le> n" and c: "0 \<le> c" and d: "0 \<le> d"
    and gap: "take_bit (m + k) d = take_bit m d"
    and nc: "take_bit m c + drop_bit k (take_bit m d) < 2 ^ m"
  shows "take_bit m (swar c d k n) = swar (take_bit m c) (take_bit m d) k (take_bit m n)"
    and "drop_bit m (swar c d k n) = swar (drop_bit m c) (drop_bit m d) k (drop_bit m n)"
proof -
  let ?A = "n AND c" and ?B = "drop_bit k (n AND d)"
  have A0: "0 \<le> ?A" and B0: "0 \<le> ?B" using n by simp_all
  have tA: "take_bit m ?A = take_bit m n AND take_bit m c" by simp
  have tB: "take_bit m ?B = drop_bit k (take_bit m n AND take_bit m d)"
  proof -
    have "take_bit m ?B = drop_bit k (take_bit (m + k) n AND take_bit m d)"
      by (simp add: take_bit_drop_bit gap)
    also have "take_bit (m + k) n AND take_bit m d = take_bit m n AND take_bit m d"
      by (auto simp add: bit_eq_iff bit_simps)
    finally show ?thesis .
  qed
  have b1: "take_bit m ?A \<le> take_bit m c" unfolding tA by (simp add: AND_upper2)
  have "take_bit m n AND take_bit m d \<le> take_bit m d" by (simp add: AND_upper2)
  then have b2: "take_bit m ?B \<le> drop_bit k (take_bit m d)"
    unfolding tB by (simp add: drop_bit_eq_div zdiv_mono1)
  have lt: "take_bit m ?A + take_bit m ?B < 2 ^ m" using b1 b2 nc by linarith
  show "take_bit m (swar c d k n) = swar (take_bit m c) (take_bit m d) k (take_bit m n)"
    unfolding swar_def using nc_take [OF A0 B0 lt] tA tB by simp
  have "drop_bit m ?B = drop_bit k (drop_bit m n AND drop_bit m d)"
    by (simp add: add.commute)
  then show "drop_bit m (swar c d k n) = swar (drop_bit m c) (drop_bit m d) k (drop_bit m n)"
    unfolding swar_def using nc_drop [OF A0 B0 lt] by simp
qed

lemma lvl2: assumes "0 \<le> n" "n < 4" shows "swar 1 2 1 n = bits2 n"
proof -
  have "n = 0 \<or> n = 1 \<or> n = 2 \<or> n = 3" using assms by arith
  then show ?thesis by (elim disjE) (simp_all add: swar_def bits2_def)
qed

lemma bits2_le: "0 \<le> bits2 b \<and> bits2 b \<le> 2" by (simp add: bits2_def)
lemma bits4_le: "0 \<le> bits4 b \<and> bits4 b \<le> 4" using bits2_le [of "take_bit 2 b"] bits2_le [of "drop_bit 2 b"] by (simp add: bits4_def)
lemma bits8_le: "0 \<le> bits8 b \<and> bits8 b \<le> 8" using bits4_le [of "take_bit 4 b"] bits4_le [of "drop_bit 4 b"] by (simp add: bits8_def)

lemma swar_nonneg: "0 \<le> n \<Longrightarrow> 0 \<le> swar c d k n"
  by (simp add: swar_def)

lemma swar_upper: "0 \<le> c \<Longrightarrow> 0 \<le> d \<Longrightarrow> swar c d k n \<le> c + drop_bit k d"
proof -
  assume c: "0 \<le> c" and d: "0 \<le> d"
  have "n AND d \<le> d" using d by (simp add: AND_upper2)
  then have "drop_bit k (n AND d) \<le> drop_bit k d" by (simp add: drop_bit_eq_div zdiv_mono1)
  moreover have "n AND c \<le> c" using c by (simp add: AND_upper2)
  ultimately show ?thesis by (simp add: swar_def)
qed

lemma fold_halves:
  assumes "0 \<le> y" "take_bit m y = a" "drop_bit m y = b" "0 \<le> b" "b < 2 ^ m"
  shows "swar (mask m) (push_bit m (mask m)) m y = a + b"
proof -
  have "drop_bit m (y AND push_bit m (mask m)) = drop_bit m y AND mask m"
    by (simp add: drop_bit_push_bit)
  also have "\<dots> = take_bit m b" using assms by (simp add: take_bit_eq_mask)
  also have "\<dots> = b" using assms by (simp add: take_bit_int_eq_self)
  finally show ?thesis using assms by (simp add: swar_def take_bit_eq_mask)
qed

lemma lvl4: assumes "0 \<le> n" "n < 16" shows "swar 3 12 2 (swar 5 10 1 n) = bits4 n"
proof -
  let ?y = "swar 5 10 1 n"
  have t: "take_bit 2 ?y = swar 1 2 1 (take_bit 2 n)"
    using swar_take(1) [of n 5 10 2 1] assms by simp
  have d: "drop_bit 2 ?y = swar 1 2 1 (drop_bit 2 n)"
    using swar_take(2) [of n 5 10 2 1] assms by simp
  have d4: "drop_bit 2 n < 4" using assms by (simp add: drop_bit_eq_div)
  have d0: "0 \<le> drop_bit 2 n" using assms by simp
  have t4: "take_bit 2 n < 4" using take_bit_int_less_exp [of 2 n] by simp
  have e1: "take_bit 2 ?y = bits2 (take_bit 2 n)" unfolding t by (rule lvl2) (simp, rule t4)
  have e2: "drop_bit 2 ?y = bits2 (drop_bit 2 n)" unfolding d by (rule lvl2 [OF d0 d4])
  have "swar (mask 2) (push_bit 2 (mask 2)) 2 ?y = bits2 (take_bit 2 n) + bits2 (drop_bit 2 n)"
    using bits2_le [of "drop_bit 2 n"] by (intro fold_halves swar_nonneg assms e1 e2) simp_all
  then show ?thesis by (simp add: bits4_def mask_eq_exp_minus_1)
qed

lemma lvl8: assumes "0 \<le> n" "n < 256"
  shows "swar 0x0F 0xF0 4 (swar 0x33 0xCC 2 (swar 0x55 0xAA 1 n)) = bits8 n"
proof -
  let ?x = "swar 0x55 0xAA 1 n"
  let ?y = "swar 0x33 0xCC 2 ?x"
  have x0: "0 \<le> ?x" by (rule swar_nonneg [OF assms(1)])
  have t1: "take_bit 4 ?x = swar 5 10 1 (take_bit 4 n)"
    using swar_take(1) [of n "0x55" "0xAA" 4 1] assms by simp
  have d1: "drop_bit 4 ?x = swar 5 10 1 (drop_bit 4 n)"
    using swar_take(2) [of n "0x55" "0xAA" 4 1] assms by simp
  have t2: "take_bit 4 ?y = swar 3 12 2 (take_bit 4 ?x)"
    using swar_take(1) [of "?x" "0x33" "0xCC" 4 2] x0 by simp
  have d2: "drop_bit 4 ?y = swar 3 12 2 (drop_bit 4 ?x)"
    using swar_take(2) [of "?x" "0x33" "0xCC" 4 2] x0 by simp
  have dn: "drop_bit 4 n < 16" "0 \<le> drop_bit 4 n" using assms by (simp_all add: drop_bit_eq_div)
  have tn: "take_bit 4 n < 16" using take_bit_int_less_exp [of 4 n] by simp
  have e1: "take_bit 4 ?y = bits4 (take_bit 4 n)" unfolding t2 t1 by (rule lvl4) (simp, rule tn)
  have e2: "drop_bit 4 ?y = bits4 (drop_bit 4 n)" unfolding d2 d1 by (rule lvl4 [OF dn(2) dn(1)])
  have "swar (mask 4) (push_bit 4 (mask 4)) 4 ?y = bits4 (take_bit 4 n) + bits4 (drop_bit 4 n)"
    using bits4_le [of "drop_bit 4 n"] by (intro fold_halves swar_nonneg assms e1 e2) simp_all
  then show ?thesis by (simp add: bits8_def mask_eq_exp_minus_1)
qed

lemma lvl16: assumes "0 \<le> n" "n < 65536"
  shows "swar 0x00FF 0xFF00 8 (swar 0x0F0F 0xF0F0 4 (swar 0x3333 0xCCCC 2 (swar 0x5555 0xAAAA 1 n))) = bits16 n"
proof -
  let ?x = "swar 0x5555 0xAAAA 1 n"
  let ?y = "swar 0x3333 0xCCCC 2 ?x"
  let ?z = "swar 0x0F0F 0xF0F0 4 ?y"
  have x0: "0 \<le> ?x" by (rule swar_nonneg [OF assms(1)])
  have y0: "0 \<le> ?y" by (rule swar_nonneg [OF x0])
  have t1: "take_bit 8 ?x = swar 0x55 0xAA 1 (take_bit 8 n)"
    using swar_take(1) [of n "0x5555" "0xAAAA" 8 1] assms by simp
  have d1: "drop_bit 8 ?x = swar 0x55 0xAA 1 (drop_bit 8 n)"
    using swar_take(2) [of n "0x5555" "0xAAAA" 8 1] assms by simp
  have t2: "take_bit 8 ?y = swar 0x33 0xCC 2 (take_bit 8 ?x)"
    using swar_take(1) [of "?x" "0x3333" "0xCCCC" 8 2] x0 by simp
  have d2: "drop_bit 8 ?y = swar 0x33 0xCC 2 (drop_bit 8 ?x)"
    using swar_take(2) [of "?x" "0x3333" "0xCCCC" 8 2] x0 by simp
  have t3: "take_bit 8 ?z = swar 0x0F 0xF0 4 (take_bit 8 ?y)"
    using swar_take(1) [of "?y" "0x0F0F" "0xF0F0" 8 4] y0 by simp
  have d3: "drop_bit 8 ?z = swar 0x0F 0xF0 4 (drop_bit 8 ?y)"
    using swar_take(2) [of "?y" "0x0F0F" "0xF0F0" 8 4] y0 by simp
  have dn: "drop_bit 8 n < 256" "0 \<le> drop_bit 8 n" using assms by (simp_all add: drop_bit_eq_div)
  have tn: "take_bit 8 n < 256" using take_bit_int_less_exp [of 8 n] by simp
  have e1: "take_bit 8 ?z = bits8 (take_bit 8 n)" unfolding t3 t2 t1 by (rule lvl8) (simp, rule tn)
  have e2: "drop_bit 8 ?z = bits8 (drop_bit 8 n)" unfolding d3 d2 d1 by (rule lvl8 [OF dn(2) dn(1)])
  have "swar (mask 8) (push_bit 8 (mask 8)) 8 ?z = bits8 (take_bit 8 n) + bits8 (drop_bit 8 n)"
    using bits8_le [of "drop_bit 8 n"] by (intro fold_halves swar_nonneg assms e1 e2) simp_all
  then show ?thesis by (simp add: bits16_def mask_eq_exp_minus_1)
qed


lemma uint_drop_bit16: "uint (drop_bit k (x::16 word)) = drop_bit k (uint x)"
  by (auto simp add: bit_eq_iff bit_simps dest: bit_imp_le_length)

lemma uint_swar:
  assumes "0 \<le> c" "0 \<le> d" "c + drop_bit k d < 65536" "uint cw = c" "uint dw = d"
  shows "uint (((w::16 word) AND cw) + drop_bit k (w AND dw)) = swar c d k (uint w)"
proof -
  have "swar c d k (uint w) \<le> c + drop_bit k d" by (rule swar_upper [OF assms(1,2)])
  moreover have "0 \<le> swar c d k (uint w)" by (rule swar_nonneg) simp
  ultimately have m: "swar c d k (uint w) mod 65536 = swar c d k (uint w)"
    using assms(3) by simp
  have dr: "uint (drop_bit k (w AND dw)) = drop_bit k (uint w AND d)"
    unfolding uint_drop_bit16 uint_and assms(5) by (rule refl)
  have "uint ((w AND cw) + drop_bit k (w AND dw)) = (uint (w AND cw) + uint (drop_bit k (w AND dw))) mod 65536"
    by (simp add: uint_word_ariths)
  also have "\<dots> = swar c d k (uint w) mod 65536"
    unfolding dr swar_def using assms(4) by (simp add: uint_and)
  finally show ?thesis using m by simp
qed

lemma popcount_bits16: "popcount w = bits16 (uint w)"
proof -
  define w1 where "w1 = (w AND 0x5555) + drop_bit 1 (w AND 0xAAAA)"
  define w2 where "w2 = (w1 AND 0x3333) + drop_bit 2 (w1 AND 0xCCCC)"
  define w3 where "w3 = (w2 AND 0x0F0F) + drop_bit 4 (w2 AND 0xF0F0)"
  define w4 where "w4 = (w3 AND 0x00FF) + drop_bit 8 (w3 AND 0xFF00)"
  have u1: "uint w1 = swar 0x5555 0xAAAA 1 (uint w)" unfolding w1_def by (rule uint_swar) simp_all
  have u2: "uint w2 = swar 0x3333 0xCCCC 2 (uint w1)" unfolding w2_def by (rule uint_swar) simp_all
  have u3: "uint w3 = swar 0x0F0F 0xF0F0 4 (uint w2)" unfolding w3_def by (rule uint_swar) simp_all
  have u4: "uint w4 = swar 0x00FF 0xFF00 8 (uint w3)" unfolding w4_def by (rule uint_swar) simp_all
  have b: "0 \<le> uint w" "uint w < 65536" using uint_bounded [of w] by simp_all
  have "popcount w = uint w4"
    unfolding popcount_def Let_def w4_def w3_def w2_def w1_def by (rule refl)
  also have "\<dots> = bits16 (uint w)"
    unfolding u4 u3 u2 u1 by (rule lvl16 [OF b])
  finally show ?thesis .
qed


lemma bits16_sum: "bits16 (uint (w::16 word)) = (\<Sum>i<16. of_bool (bit w i))"
proof -
  have "(\<Sum>i<16. of_bool (bit w i) :: int) = (\<Sum>i\<leftarrow>[0..<16]. of_bool (bit w i))"
    by (simp add: sum_list_distinct_conv_sum_set atLeast_upt)
  also have "[0..<16] = [0,1,2,3,4,5,6,7,8,9,10,11,12,13,14,15::nat]" by code_simp
  finally show ?thesis
    by (simp add: bits16_def bits8_def bits4_def bits2_def bit_simps)
qed


lemma popcount_card: "popcount w = int (card {i. i < 16 \<and> bit w i})"
proof -
  have "(\<Sum>i<16. of_bool (bit w i)) = int (card ({..<16} \<inter> {i. bit w i}))"
    by (rule sum_of_bool_eq) simp_all
  moreover have "{..<16} \<inter> {i. bit w i} = {i. i < 16 \<and> bit w i}" by auto
  ultimately show ?thesis by (simp add: popcount_bits16 bits16_sum)
qed

section \<open>The squares of a set\<close>

lemma upt9: "[0..<9] = [0, 1, 2, 3, 4, 5, 6, 7, 8::nat]"
  by code_simp

lemma flag_bit:
  "(m AND (1::val_t) \<noteq> 0) = bit m 0" "(m AND (2::val_t) \<noteq> 0) = bit m 1"
  "(m AND (4::val_t) \<noteq> 0) = bit m 2" "(m AND (8::val_t) \<noteq> 0) = bit m 3"
  "(m AND (16::val_t) \<noteq> 0) = bit m 4" "(m AND (32::val_t) \<noteq> 0) = bit m 5"
  "(m AND (64::val_t) \<noteq> 0) = bit m 6" "(m AND (128::val_t) \<noteq> 0) = bit m 7"
  "(m AND (256::val_t) \<noteq> 0) = bit m 8"
  using and_exp_eq_0_iff_not_bit [of m 0] and_exp_eq_0_iff_not_bit [of m 1]
    and_exp_eq_0_iff_not_bit [of m 2] and_exp_eq_0_iff_not_bit [of m 3]
    and_exp_eq_0_iff_not_bit [of m 4] and_exp_eq_0_iff_not_bit [of m 5]
    and_exp_eq_0_iff_not_bit [of m 6] and_exp_eq_0_iff_not_bit [of m 7]
    and_exp_eq_0_iff_not_bit [of m 8]
  by simp_all

lemma foreachSquare_bits:
  "foreachSquare s =
     map (\<lambda>i. (ss_x s + int (i mod 3), ss_y s + int (i div 3)))
       (filter (\<lambda>i. bit (ss_mask s) i) [0..<9])"
  unfolding upt9
  by (simp add: foreachSquare_def enumerateSquareSetMaskFlags_def flag_defs mf2pt_def flag_bit)

lemma in_squares:
  "(px, py) \<in> squares s \<longleftrightarrow>
     (\<exists>i<9. bit (ss_mask s) i \<and> px = ss_x s + int (i mod 3) \<and> py = ss_y s + int (i div 3))"
  unfolding squares_def foreachSquare_bits by auto

lemma mask9_bit: "mask9 m \<Longrightarrow> bit m i \<Longrightarrow> i < 9"
proof -
  assume "mask9 m" and b: "bit m i"
  then have "m < 2 ^ 9" by (simp add: mask9_def word_le_nat_alt word_less_nat_alt)
  then have "m AND mask 9 = m" by (rule less_mask_eq)
  then have "bit (m AND mask 9) i" using b by simp
  then show ?thesis by (simp add: bit_simps)
qed

lemma sq_inj: "inj_on (\<lambda>i::nat. (x + int (i mod 3), y + int (i div 3))) A"
proof (rule inj_onI)
  fix i j :: nat
  assume "(x + int (i mod 3), y + int (i div 3)) = (x + int (j mod 3), y + int (j div 3))"
  then have "i mod 3 = j mod 3" "i div 3 = j div 3" by simp_all
  then show "i = j" by (metis div_mult_mod_eq)
qed

lemma squares_image:
  "squares s = (\<lambda>i. (ss_x s + int (i mod 3), ss_y s + int (i div 3))) ` {i. i < 9 \<and> bit (ss_mask s) i}"
  unfolding squares_def foreachSquare_bits by auto

lemma card_squares: "card (squares s) = card {i. i < 9 \<and> bit (ss_mask s) i}"
  unfolding squares_image by (rule card_image [OF sq_inj])


lemma count_card:
  assumes "mask9 (ss_mask s)"
  shows "count (ss_mask s) = int (card (squares s))"
proof -
  have lt: "i < 16" if "bit (ss_mask s) i" for i
    using mask9_bit [OF assms that] by simp
  have "{i. i < 16 \<and> bit (ucast (ss_mask s) :: 16 word) i} = {i. i < 9 \<and> bit (ss_mask s) i}"
    using mask9_bit [OF assms] lt by (auto simp add: bit_simps)
  then show ?thesis by (simp add: count_def popcount_card card_squares)
qed

text \<open>
  Claim C10.  For every 16-bit word, \<open>popcount\<close> returns the number of positions
  0..15 at which the word has a 1 bit; and \<open>SquareSetMask::count\<close> of a mask of the data
  model (nine bits) is the number of squares that the mask denotes.
\<close>

theorem popcount_counts_bits:
  "popcount w = int (card {i. i < 16 \<and> bit w i}) \<and>
   (mask9 (ss_mask s) \<longrightarrow> count (ss_mask s) = int (card (squares s)))"
  using popcount_card count_card by blast

theorem popcount_counts_bits_witness:
  "mask9 0x1A5 \<and> count 0x1A5 = 5 \<and>
   int (card (squares \<lparr>ss_x = 2, ss_y = 3, ss_mask = 0x1A5\<rparr>)) = 5"
proof -
  have m: "mask9 0x1A5" by (simp add: mask9_def)
  have "count 0x1A5 = int (card (squares \<lparr>ss_x = 2, ss_y = 3, ss_mask = 0x1A5\<rparr>))"
    using popcount_counts_bits [of 0 "\<lparr>ss_x = 2, ss_y = 3, ss_mask = 0x1A5\<rparr>"] m by simp
  moreover have "count 0x1A5 = 5" by (simp add: count_def popcount_def)
  ultimately show ?thesis using m by simp
qed


section \<open>Moving, intersecting and subtracting square sets\<close>

lemma ex9: "(\<exists>i<9. P (i::nat)) \<longleftrightarrow> P 0 \<or> P 1 \<or> P 2 \<or> P 3 \<or> P 4 \<or> P 5 \<or> P 6 \<or> P 7 \<or> P 8"
proof
  assume "\<exists>i<9. P i"
  then obtain i where i: "i < 9" "P i" by blast
  then have "i = 0 \<or> i = 1 \<or> i = 2 \<or> i = 3 \<or> i = 4 \<or> i = 5 \<or> i = 6 \<or> i = 7 \<or> i = 8" by arith
  with i(2) show "P 0 \<or> P 1 \<or> P 2 \<or> P 3 \<or> P 4 \<or> P 5 \<or> P 6 \<or> P 7 \<or> P 8" by blast
next
  assume a: "P 0 \<or> P 1 \<or> P 2 \<or> P 3 \<or> P 4 \<or> P 5 \<or> P 6 \<or> P 7 \<or> P 8"
  have "(0::nat) < 9" "(1::nat) < 9" "(2::nat) < 9" "(3::nat) < 9" "(4::nat) < 9" "(5::nat) < 9"
    "(6::nat) < 9" "(7::nat) < 9" "(8::nat) < 9" by simp_all
  with a show "\<exists>i<9. P i" by blast
qed

lemma in_squares9:
  "(px, py) \<in> squares \<lparr>ss_x = X, ss_y = Y, ss_mask = m\<rparr> \<longleftrightarrow>
     (bit m 0 \<and> px = X \<and> py = Y) \<or> (bit m 1 \<and> px = X + 1 \<and> py = Y) \<or>
     (bit m 2 \<and> px = X + 2 \<and> py = Y) \<or> (bit m 3 \<and> px = X \<and> py = Y + 1) \<or>
     (bit m 4 \<and> px = X + 1 \<and> py = Y + 1) \<or> (bit m 5 \<and> px = X + 2 \<and> py = Y + 1) \<or>
     (bit m 6 \<and> px = X \<and> py = Y + 2) \<or> (bit m 7 \<and> px = X + 1 \<and> py = Y + 2) \<or>
     (bit m 8 \<and> px = X + 2 \<and> py = Y + 2)"
  unfolding in_squares ex9 by simp

lemma move_bits:
  "bit (move_left m) 0 = False" "bit (move_left m) (Suc 0) = bit m 0" "bit (move_left m) 2 = bit m (Suc 0)"
  "bit (move_left m) 3 = False" "bit (move_left m) 4 = bit m 3" "bit (move_left m) 5 = bit m 4"
  "bit (move_left m) 6 = False" "bit (move_left m) 7 = bit m 6" "bit (move_left m) 8 = bit m 7"
  "bit (move_right m) 0 = bit m (Suc 0)" "bit (move_right m) (Suc 0) = bit m 2" "bit (move_right m) 2 = False"
  "bit (move_right m) 3 = bit m 4" "bit (move_right m) 4 = bit m 5" "bit (move_right m) 5 = False"
  "bit (move_right m) 6 = bit m 7" "bit (move_right m) 7 = bit m 8" "bit (move_right m) 8 = False"
  "bit (move_up m) 0 = False" "bit (move_up m) (Suc 0) = False" "bit (move_up m) 2 = False"
  "bit (move_up m) 3 = bit m 0" "bit (move_up m) 4 = bit m (Suc 0)" "bit (move_up m) 5 = bit m 2"
  "bit (move_up m) 6 = bit m 3" "bit (move_up m) 7 = bit m 4" "bit (move_up m) 8 = bit m 5"
  "bit (move_down m) 0 = bit m 3" "bit (move_down m) (Suc 0) = bit m 4" "bit (move_down m) 2 = bit m 5"
  "bit (move_down m) 3 = bit m 6" "bit (move_down m) 4 = bit m 7" "bit (move_down m) 5 = bit m 8"
  "bit (move_down m) 6 = False" "bit (move_down m) 7 = False" "bit (move_down m) 8 = False"
  by (simp_all add: move_left_def move_right_def move_up_def move_down_def mask_not_def
      flag_defs bit_simps numeral_2_eq_2 [symmetric] del: push_bit_Suc drop_bit_Suc)


lemma in_squares_win:
  "(px, py) \<in> squares s \<longleftrightarrow>
     ss_x s \<le> px \<and> px \<le> ss_x s + 2 \<and> ss_y s \<le> py \<and> py \<le> ss_y s + 2 \<and>
     bit (ss_mask s) (nat (3 * (py - ss_y s) + (px - ss_x s)))"
proof
  assume "(px, py) \<in> squares s"
  then obtain i where i: "i < 9" "bit (ss_mask s) i" "px = ss_x s + int (i mod 3)"
    "py = ss_y s + int (i div 3)" unfolding in_squares by blast
  have "nat (3 * int (i div 3) + int (i mod 3)) = i"
    by (metis mult.commute nat_int of_nat_add of_nat_mult of_nat_numeral div_mult_mod_eq)
  moreover have "i div 3 \<le> 2" "i mod 3 \<le> 2" using i(1) by simp_all
  ultimately show "ss_x s \<le> px \<and> px \<le> ss_x s + 2 \<and> ss_y s \<le> py \<and> py \<le> ss_y s + 2 \<and>
     bit (ss_mask s) (nat (3 * (py - ss_y s) + (px - ss_x s)))"
    using i by simp
next
  assume a: "ss_x s \<le> px \<and> px \<le> ss_x s + 2 \<and> ss_y s \<le> py \<and> py \<le> ss_y s + 2 \<and>
     bit (ss_mask s) (nat (3 * (py - ss_y s) + (px - ss_x s)))"
  define dx dy where "dx = nat (px - ss_x s)" and "dy = nat (py - ss_y s)"
  have d: "dx \<le> 2" "dy \<le> 2" "px = ss_x s + int dx" "py = ss_y s + int dy"
    using a by (simp_all add: dx_def dy_def nat_le_iff)
  have e: "nat (3 * (py - ss_y s) + (px - ss_x s)) = 3 * dy + dx"
    using d by (simp add: nat_add_distrib nat_mult_distrib)
  have "3 * dy + dx < 9" "(3 * dy + dx) mod 3 = dx" "(3 * dy + dx) div 3 = dy"
    using d(1,2) by simp_all
  then show "(px, py) \<in> squares s"
    unfolding in_squares using a d(3,4) e by (intro exI [of _ "3 * dy + dx"]) simp
qed

lemma win_cases:
  assumes "0 \<le> (dx::int)" "dx \<le> 2" "0 \<le> (dy::int)" "dy \<le> 2"
  shows "(dx = 0 \<or> dx = 1 \<or> dx = 2) \<and> (dy = 0 \<or> dy = 1 \<or> dy = 2)"
  using assms by arith

lemma in_squares_cell:
  "(px, py) \<in> squares s \<longleftrightarrow>
     ss_x s \<le> px \<and> px \<le> ss_x s + 2 \<and> ss_y s \<le> py \<and> py \<le> ss_y s + 2 \<and>
     cell (ss_mask s) (px - ss_x s) (py - ss_y s)"
  unfolding in_squares_win cell_def by (rule refl)

lemma cell_move_left:
  assumes "0 \<le> dx" "dx \<le> 2" "0 \<le> dy" "dy \<le> 2"
  shows "cell (move_left m) dx dy \<longleftrightarrow> 1 \<le> dx \<and> cell m (dx - 1) dy"
  using win_cases [OF assms] unfolding cell_def by (elim conjE disjE) (simp_all add: move_bits)

lemma cell_move_right:
  assumes "0 \<le> dx" "dx \<le> 2" "0 \<le> dy" "dy \<le> 2"
  shows "cell (move_right m) dx dy \<longleftrightarrow> dx \<le> 1 \<and> cell m (dx + 1) dy"
  using win_cases [OF assms] unfolding cell_def by (elim conjE disjE) (simp_all add: move_bits)

lemma cell_move_up:
  assumes "0 \<le> dx" "dx \<le> 2" "0 \<le> dy" "dy \<le> 2"
  shows "cell (move_up m) dx dy \<longleftrightarrow> 1 \<le> dy \<and> cell m dx (dy - 1)"
  using win_cases [OF assms] unfolding cell_def by (elim conjE disjE) (simp_all add: move_bits)

lemma cell_move_down:
  assumes "0 \<le> dx" "dx \<le> 2" "0 \<le> dy" "dy \<le> 2"
  shows "cell (move_down m) dx dy \<longleftrightarrow> dy \<le> 1 \<and> cell m dx (dy + 1)"
  using win_cases [OF assms] unfolding cell_def by (elim conjE disjE) (simp_all add: move_bits)

lemma squares_move_left:
  "squares \<lparr>ss_x = X, ss_y = Y, ss_mask = move_left m\<rparr> =
     {p \<in> squares \<lparr>ss_x = X + 1, ss_y = Y, ss_mask = m\<rparr>. fst p \<le> X + 2}"
  by (auto simp add: in_squares_cell cell_move_left diff_diff_eq)

lemma squares_move_right:
  "squares \<lparr>ss_x = X + 1, ss_y = Y, ss_mask = move_right m\<rparr> =
     {p \<in> squares \<lparr>ss_x = X, ss_y = Y, ss_mask = m\<rparr>. X + 1 \<le> fst p}"
  by (auto simp add: in_squares_cell cell_move_right diff_diff_eq)

lemma squares_move_up:
  "squares \<lparr>ss_x = X, ss_y = Y, ss_mask = move_up m\<rparr> =
     {p \<in> squares \<lparr>ss_x = X, ss_y = Y + 1, ss_mask = m\<rparr>. snd p \<le> Y + 2}"
  by (auto simp add: in_squares_cell cell_move_up diff_diff_eq)

lemma squares_move_down:
  "squares \<lparr>ss_x = X, ss_y = Y + 1, ss_mask = move_down m\<rparr> =
     {p \<in> squares \<lparr>ss_x = X, ss_y = Y, ss_mask = m\<rparr>. Y + 1 \<le> snd p}"
  by (auto simp add: in_squares_cell cell_move_down diff_diff_eq)


lemma squares_move_left':
  "squares \<lparr>ss_x = X - 1, ss_y = Y, ss_mask = move_left m\<rparr> =
     {p \<in> squares \<lparr>ss_x = X, ss_y = Y, ss_mask = m\<rparr>. fst p \<le> X + 1}"
  using squares_move_left [of "X - 1" Y m] by (simp add: add.commute)

lemma squares_move_up':
  "squares \<lparr>ss_x = X, ss_y = Y - 1, ss_mask = move_up m\<rparr> =
     {p \<in> squares \<lparr>ss_x = X, ss_y = Y, ss_mask = m\<rparr>. snd p \<le> Y + 1}"
  using squares_move_up [of X "Y - 1" m] by (simp add: add.commute)

lemma loop_left_squares:
  "x \<le> ox \<Longrightarrow> \<exists>m'. loop_left ox x m = (x, m') \<and>
     squares \<lparr>ss_x = x, ss_y = Y, ss_mask = m'\<rparr> =
       {p \<in> squares \<lparr>ss_x = ox, ss_y = Y, ss_mask = m\<rparr>. fst p \<le> x + 2}"
proof (induction ox x m rule: loop_left.induct)
  case (1 ox x m)
  show ?case
  proof (cases "ox > x")
    case True
    then have "x \<le> ox - 1" by simp
    from "1.IH" [OF True this] obtain m' where m': "loop_left (ox - 1) x (move_left m) = (x, m')"
      "squares \<lparr>ss_x = x, ss_y = Y, ss_mask = m'\<rparr> =
       {p \<in> squares \<lparr>ss_x = ox - 1, ss_y = Y, ss_mask = move_left m\<rparr>. fst p \<le> x + 2}"
      by blast
    have "loop_left ox x m = loop_left (ox - 1) x (move_left m)"
      using True by (subst loop_left.simps) simp
    then have "loop_left ox x m = (x, m')" using m'(1) by simp
    moreover have "squares \<lparr>ss_x = x, ss_y = Y, ss_mask = m'\<rparr> =
       {p \<in> squares \<lparr>ss_x = ox, ss_y = Y, ss_mask = m\<rparr>. fst p \<le> x + 2}"
      unfolding m'(2) squares_move_left' using True by auto
    ultimately show ?thesis by blast
  next
    case False
    then have "ox = x" using "1.prems" by simp
    then have "loop_left ox x m = (x, m)" by (subst loop_left.simps) simp
    moreover have "squares \<lparr>ss_x = x, ss_y = Y, ss_mask = m\<rparr> =
       {p \<in> squares \<lparr>ss_x = ox, ss_y = Y, ss_mask = m\<rparr>. fst p \<le> x + 2}"
      unfolding \<open>ox = x\<close> by (auto simp add: in_squares_cell)
    ultimately show ?thesis by blast
  qed
qed

lemma loop_right_squares:
  "ox \<le> x \<Longrightarrow> \<exists>m'. loop_right ox x m = (x, m') \<and>
     squares \<lparr>ss_x = x, ss_y = Y, ss_mask = m'\<rparr> =
       {p \<in> squares \<lparr>ss_x = ox, ss_y = Y, ss_mask = m\<rparr>. x \<le> fst p}"
proof (induction ox x m rule: loop_right.induct)
  case (1 ox x m)
  show ?case
  proof (cases "ox < x")
    case True
    then have "ox + 1 \<le> x" by simp
    from "1.IH" [OF True this] obtain m' where m': "loop_right (ox + 1) x (move_right m) = (x, m')"
      "squares \<lparr>ss_x = x, ss_y = Y, ss_mask = m'\<rparr> =
       {p \<in> squares \<lparr>ss_x = ox + 1, ss_y = Y, ss_mask = move_right m\<rparr>. x \<le> fst p}"
      by blast
    have "loop_right ox x m = loop_right (ox + 1) x (move_right m)"
      using True by (subst loop_right.simps) simp
    then have "loop_right ox x m = (x, m')" using m'(1) by simp
    moreover have "squares \<lparr>ss_x = x, ss_y = Y, ss_mask = m'\<rparr> =
       {p \<in> squares \<lparr>ss_x = ox, ss_y = Y, ss_mask = m\<rparr>. x \<le> fst p}"
      unfolding m'(2) squares_move_right using True by auto
    ultimately show ?thesis by blast
  next
    case False
    then have "ox = x" using "1.prems" by simp
    then have "loop_right ox x m = (x, m)" by (subst loop_right.simps) simp
    moreover have "squares \<lparr>ss_x = x, ss_y = Y, ss_mask = m\<rparr> =
       {p \<in> squares \<lparr>ss_x = ox, ss_y = Y, ss_mask = m\<rparr>. x \<le> fst p}"
      unfolding \<open>ox = x\<close> by (auto simp add: in_squares_cell)
    ultimately show ?thesis by blast
  qed
qed

lemma loop_up_squares:
  "y \<le> oy \<Longrightarrow> \<exists>m'. loop_up oy y m = (y, m') \<and>
     squares \<lparr>ss_x = X, ss_y = y, ss_mask = m'\<rparr> =
       {p \<in> squares \<lparr>ss_x = X, ss_y = oy, ss_mask = m\<rparr>. snd p \<le> y + 2}"
proof (induction oy y m rule: loop_up.induct)
  case (1 oy y m)
  show ?case
  proof (cases "oy > y")
    case True
    then have "y \<le> oy - 1" by simp
    from "1.IH" [OF True this] obtain m' where m': "loop_up (oy - 1) y (move_up m) = (y, m')"
      "squares \<lparr>ss_x = X, ss_y = y, ss_mask = m'\<rparr> =
       {p \<in> squares \<lparr>ss_x = X, ss_y = oy - 1, ss_mask = move_up m\<rparr>. snd p \<le> y + 2}"
      by blast
    have "loop_up oy y m = loop_up (oy - 1) y (move_up m)"
      using True by (subst loop_up.simps) simp
    then have "loop_up oy y m = (y, m')" using m'(1) by simp
    moreover have "squares \<lparr>ss_x = X, ss_y = y, ss_mask = m'\<rparr> =
       {p \<in> squares \<lparr>ss_x = X, ss_y = oy, ss_mask = m\<rparr>. snd p \<le> y + 2}"
      unfolding m'(2) squares_move_up' using True by auto
    ultimately show ?thesis by blast
  next
    case False
    then have "oy = y" using "1.prems" by simp
    then have "loop_up oy y m = (y, m)" by (subst loop_up.simps) simp
    moreover have "squares \<lparr>ss_x = X, ss_y = y, ss_mask = m\<rparr> =
       {p \<in> squares \<lparr>ss_x = X, ss_y = oy, ss_mask = m\<rparr>. snd p \<le> y + 2}"
      unfolding \<open>oy = y\<close> by (auto simp add: in_squares_cell)
    ultimately show ?thesis by blast
  qed
qed


lemma loop_down_squares:
  "oy \<le> y \<Longrightarrow> \<exists>m'. loop_down oy y m = (y, m') \<and>
     squares \<lparr>ss_x = X, ss_y = y, ss_mask = m'\<rparr> =
       {p \<in> squares \<lparr>ss_x = X, ss_y = oy, ss_mask = m\<rparr>. y \<le> snd p}"
proof (induction oy y m rule: loop_down.induct)
  case (1 oy y m)
  show ?case
  proof (cases "oy < y")
    case True
    then have "oy + 1 \<le> y" by simp
    from "1.IH" [OF True this] obtain m' where m': "loop_down (oy + 1) y (move_down m) = (y, m')"
      "squares \<lparr>ss_x = X, ss_y = y, ss_mask = m'\<rparr> =
       {p \<in> squares \<lparr>ss_x = X, ss_y = oy + 1, ss_mask = move_down m\<rparr>. y \<le> snd p}"
      by blast
    have "loop_down oy y m = loop_down (oy + 1) y (move_down m)"
      using True by (subst loop_down.simps) simp
    then have "loop_down oy y m = (y, m')" using m'(1) by simp
    moreover have "squares \<lparr>ss_x = X, ss_y = y, ss_mask = m'\<rparr> =
       {p \<in> squares \<lparr>ss_x = X, ss_y = oy, ss_mask = m\<rparr>. y \<le> snd p}"
      unfolding m'(2) squares_move_down using True by auto
    ultimately show ?thesis by blast
  next
    case False
    then have "oy = y" using "1.prems" by simp
    then have "loop_down oy y m = (y, m)" by (subst loop_down.simps) simp
    moreover have "squares \<lparr>ss_x = X, ss_y = y, ss_mask = m\<rparr> =
       {p \<in> squares \<lparr>ss_x = X, ss_y = oy, ss_mask = m\<rparr>. y \<le> snd p}"
      unfolding \<open>oy = y\<close> by (auto simp add: in_squares_cell)
    ultimately show ?thesis by blast
  qed
qed


lemma loop_left_id: "ox \<le> x \<Longrightarrow> loop_left ox x m = (ox, m)"
  by (subst loop_left.simps) simp

lemma loop_up_id: "oy \<le> y \<Longrightarrow> loop_up oy y m = (oy, m)"
  by (subst loop_up.simps) simp

lemma shift_x_squares:
  "\<exists>m2. loop_right (fst (loop_left ox x m)) x (snd (loop_left ox x m)) = (x, m2) \<and>
     squares \<lparr>ss_x = x, ss_y = Y, ss_mask = m2\<rparr> =
       {p \<in> squares \<lparr>ss_x = ox, ss_y = Y, ss_mask = m\<rparr>. x \<le> fst p \<and> fst p \<le> x + 2}"
proof (cases "x \<le> ox")
  case True
  from loop_left_squares [OF True, where m = m and Y = Y] obtain m1 where m1: "loop_left ox x m = (x, m1)"
    "squares \<lparr>ss_x = x, ss_y = Y, ss_mask = m1\<rparr> =
       {p \<in> squares \<lparr>ss_x = ox, ss_y = Y, ss_mask = m\<rparr>. fst p \<le> x + 2}" by blast
  have "loop_right x x m1 = (x, m1)" by (subst loop_right.simps) simp
  moreover have "squares \<lparr>ss_x = x, ss_y = Y, ss_mask = m1\<rparr> =
       {p \<in> squares \<lparr>ss_x = ox, ss_y = Y, ss_mask = m\<rparr>. x \<le> fst p \<and> fst p \<le> x + 2}"
    unfolding m1(2) using True by (auto simp add: in_squares_cell)
  ultimately show ?thesis using m1(1) by simp
next
  case False
  then have le: "ox \<le> x" by simp
  from loop_right_squares [OF le, where m = m and Y = Y] obtain m2 where m2: "loop_right ox x m = (x, m2)"
    "squares \<lparr>ss_x = x, ss_y = Y, ss_mask = m2\<rparr> =
       {p \<in> squares \<lparr>ss_x = ox, ss_y = Y, ss_mask = m\<rparr>. x \<le> fst p}" by blast
  have "squares \<lparr>ss_x = x, ss_y = Y, ss_mask = m2\<rparr> =
       {p \<in> squares \<lparr>ss_x = ox, ss_y = Y, ss_mask = m\<rparr>. x \<le> fst p \<and> fst p \<le> x + 2}"
    unfolding m2(2) using False by (auto simp add: in_squares_cell)
  then show ?thesis using m2(1) by (simp add: loop_left_id [OF le])
qed

lemma shift_y_squares:
  "\<exists>m2. loop_down (fst (loop_up oy y m)) y (snd (loop_up oy y m)) = (y, m2) \<and>
     squares \<lparr>ss_x = X, ss_y = y, ss_mask = m2\<rparr> =
       {p \<in> squares \<lparr>ss_x = X, ss_y = oy, ss_mask = m\<rparr>. y \<le> snd p \<and> snd p \<le> y + 2}"
proof (cases "y \<le> oy")
  case True
  from loop_up_squares [OF True, where m = m and X = X] obtain m1 where m1: "loop_up oy y m = (y, m1)"
    "squares \<lparr>ss_x = X, ss_y = y, ss_mask = m1\<rparr> =
       {p \<in> squares \<lparr>ss_x = X, ss_y = oy, ss_mask = m\<rparr>. snd p \<le> y + 2}" by blast
  have "loop_down y y m1 = (y, m1)" by (subst loop_down.simps) simp
  moreover have "squares \<lparr>ss_x = X, ss_y = y, ss_mask = m1\<rparr> =
       {p \<in> squares \<lparr>ss_x = X, ss_y = oy, ss_mask = m\<rparr>. y \<le> snd p \<and> snd p \<le> y + 2}"
    unfolding m1(2) using True by (auto simp add: in_squares_cell)
  ultimately show ?thesis using m1(1) by simp
next
  case False
  then have le: "oy \<le> y" by simp
  from loop_down_squares [OF le, where m = m and X = X] obtain m2 where m2: "loop_down oy y m = (y, m2)"
    "squares \<lparr>ss_x = X, ss_y = y, ss_mask = m2\<rparr> =
       {p \<in> squares \<lparr>ss_x = X, ss_y = oy, ss_mask = m\<rparr>. y \<le> snd p}" by blast
  have "squares \<lparr>ss_x = X, ss_y = y, ss_mask = m2\<rparr> =
       {p \<in> squares \<lparr>ss_x = X, ss_y = oy, ss_mask = m\<rparr>. y \<le> snd p \<and> snd p \<le> y + 2}"
    unfolding m2(2) using False by (auto simp add: in_squares_cell)
  then show ?thesis using m2(1) by (simp add: loop_up_id [OF le])
qed


lemma squares_mask0 [simp]: "squares \<lparr>ss_x = X, ss_y = Y, ss_mask = 0\<rparr> = {}"
  by (auto simp add: in_squares_cell cell_def)

lemma squares_SquareSet_at:
  "squares (SquareSet_at x y other) =
     {p \<in> squares other. x \<le> fst p \<and> fst p \<le> x + 2 \<and> y \<le> snd p \<and> snd p \<le> y + 2}"
proof (cases "\<bar>ss_x other - x\<bar> \<ge> 3 \<or> \<bar>ss_y other - y\<bar> \<ge> 3")
  case True
  then have "SquareSet_at x y other = \<lparr>ss_x = x, ss_y = y, ss_mask = 0\<rparr>"
    by (simp add: SquareSet_at_def)
  moreover have "{p \<in> squares other. x \<le> fst p \<and> fst p \<le> x + 2 \<and> y \<le> snd p \<and> snd p \<le> y + 2} = {}"
    using True by (auto simp add: in_squares_cell)
  ultimately show ?thesis by simp
next
  case False
  obtain m2 where m2: "loop_right (fst (loop_left (ss_x other) x (ss_mask other))) x
        (snd (loop_left (ss_x other) x (ss_mask other))) = (x, m2)"
    "squares \<lparr>ss_x = x, ss_y = ss_y other, ss_mask = m2\<rparr> =
       {p \<in> squares \<lparr>ss_x = ss_x other, ss_y = ss_y other, ss_mask = ss_mask other\<rparr>.
          x \<le> fst p \<and> fst p \<le> x + 2}"
    using shift_x_squares [of "ss_x other" x "ss_mask other" "ss_y other"] by blast
  obtain m4 where m4: "loop_down (fst (loop_up (ss_y other) y m2)) y
        (snd (loop_up (ss_y other) y m2)) = (y, m4)"
    "squares \<lparr>ss_x = x, ss_y = y, ss_mask = m4\<rparr> =
       {p \<in> squares \<lparr>ss_x = x, ss_y = ss_y other, ss_mask = m2\<rparr>.
          y \<le> snd p \<and> snd p \<le> y + 2}"
    using shift_y_squares [of "ss_y other" y m2 x] by blast
  have e: "SquareSet_at x y other = \<lparr>ss_x = x, ss_y = y, ss_mask = m4\<rparr>"
    using False m2(1) m4(1) by (simp add: SquareSet_at_def split_beta)
  have r: "\<lparr>ss_x = ss_x other, ss_y = ss_y other, ss_mask = ss_mask other\<rparr> = other"
    by simp
  show ?thesis unfolding e m4(2) m2(2) r by auto
qed


lemma nine_mask: "(0x1FF :: val_t) = mask 9"
  by (simp add: mask_eq_exp_minus_1)

lemma mask_not_mask: "mask_not m = m XOR mask 9"
  by (simp add: mask_not_def flag_defs mask_eq_exp_minus_1)

lemma idx_lt9: "0 \<le> dx \<Longrightarrow> dx \<le> 2 \<Longrightarrow> 0 \<le> dy \<Longrightarrow> dy \<le> 2 \<Longrightarrow> nat (3 * dy + dx) < 9"
  by simp

lemma cell_and: "cell (m AND n) dx dy \<longleftrightarrow> cell m dx dy \<and> cell n dx dy"
  by (simp add: cell_def bit_and_iff)

lemma cell_mask_not:
  "0 \<le> dx \<Longrightarrow> dx \<le> 2 \<Longrightarrow> 0 \<le> dy \<Longrightarrow> dy \<le> 2 \<Longrightarrow> cell (mask_not m) dx dy \<longleftrightarrow> \<not> cell m dx dy"
  using idx_lt9 [of dx dy] by (simp add: cell_def mask_not_mask bit_simps)

lemma squares_window: "(px, py) \<in> squares s \<Longrightarrow>
    ss_x s \<le> px \<and> px \<le> ss_x s + 2 \<and> ss_y s \<le> py \<and> py \<le> ss_y s + 2"
  by (simp add: in_squares_cell)

lemma SquareSet_at_xy [simp]:
  "ss_x (SquareSet_at x y other) = x" "ss_y (SquareSet_at x y other) = y"
  by (simp_all add: SquareSet_at_def split_beta Let_def)

lemma squares_and: "squares (squareset_and a b) = squares a \<inter> squares b"
proof -
  have "squares (squareset_and a b) = squares a \<inter> squares (SquareSet_at (ss_x a) (ss_y a) b)"
    by (auto simp add: squareset_and_def Let_def in_squares_cell cell_and)
  also have "\<dots> = squares a \<inter> squares b"
    unfolding squares_SquareSet_at by (auto dest: squares_window)
  finally show ?thesis .
qed

lemma squares_minus: "squares (squareset_minus a b) = squares a - squares b"
proof -
  have "squares (squareset_minus a b) = squares a - squares (SquareSet_at (ss_x a) (ss_y a) b)"
    by (auto simp add: squareset_minus_def Let_def in_squares_cell cell_and cell_mask_not)
  also have "\<dots> = squares a - squares b"
    unfolding squares_SquareSet_at by (auto dest: squares_window)
  finally show ?thesis .
qed

lemma minus_and_mask:
  assumes "mask9 (ss_mask a)"
  shows "ss_mask (squareset_and (squareset_minus a b) b) = 0"
proof -
  have "(A AND (B XOR mask 9)) AND B = 0" if "mask9 A" for A B :: val_t
    using mask9_bit [OF that] by (auto simp add: bit_eq_iff bit_simps)
  then show ?thesis using assms
    by (simp add: squareset_and_def squareset_minus_def Let_def mask_not_mask)
qed

lemma far_and_mask:
  "\<bar>ss_x a - ss_x b\<bar> \<ge> 3 \<or> \<bar>ss_y a - ss_y b\<bar> \<ge> 3 \<Longrightarrow> ss_mask (squareset_and a b) = 0"
  by (auto simp add: squareset_and_def Let_def SquareSet_at_def abs_minus_commute)


text \<open>
  Claim C9.  For square sets \<open>a\<close> and \<open>b\<close> of the data model (masks of nine bits): the
  squares of \<open>a & b\<close> are squares of \<open>a\<close>; the mask of \<open>(a - b) & b\<close> is empty; the
  squares of \<open>a - b\<close> and of \<open>a & b\<close> together are the squares of \<open>a\<close>; and when the
  anchors are 3 or more apart in one axis, the mask of \<open>a & b\<close> is empty.
\<close>

theorem intersection_difference_laws:
  assumes "mask9 (ss_mask a)" and "mask9 (ss_mask b)"
  shows "squares (squareset_and a b) \<subseteq> squares a \<and>
    ss_mask (squareset_and (squareset_minus a b) b) = 0 \<and>
    squares (squareset_minus a b) \<union> squares (squareset_and a b) = squares a \<and>
    (\<bar>ss_x a - ss_x b\<bar> \<ge> 3 \<or> \<bar>ss_y a - ss_y b\<bar> \<ge> 3 \<longrightarrow> ss_mask (squareset_and a b) = 0)"
proof -
  have "squares (squareset_and a b) \<subseteq> squares a"
    unfolding squares_and by blast
  moreover have "squares (squareset_minus a b) \<union> squares (squareset_and a b) = squares a"
    unfolding squares_and squares_minus by blast
  ultimately show ?thesis
    using minus_and_mask [OF assms(1)] far_and_mask [of a b] by blast
qed

theorem intersection_difference_laws_witness:
  "mask9 0x1FF \<and> mask9 0x01B \<and>
   ss_mask (squareset_and (squareset_minus \<lparr>ss_x = 0, ss_y = 0, ss_mask = 0x1FF\<rparr>
       \<lparr>ss_x = 1, ss_y = 1, ss_mask = 0x01B\<rparr>) \<lparr>ss_x = 1, ss_y = 1, ss_mask = 0x01B\<rparr>) = 0 \<and>
   ss_mask (squareset_and \<lparr>ss_x = 0, ss_y = 0, ss_mask = 0x1FF\<rparr>
       \<lparr>ss_x = 3, ss_y = 0, ss_mask = 0x01B\<rparr>) = 0"
proof -
  have m: "mask9 0x1FF" "mask9 0x01B" by (simp_all add: mask9_def)
  show ?thesis
    using m
      intersection_difference_laws [of "\<lparr>ss_x = 0, ss_y = 0, ss_mask = 0x1FF\<rparr>"
        "\<lparr>ss_x = 1, ss_y = 1, ss_mask = 0x01B\<rparr>"]
      intersection_difference_laws [of "\<lparr>ss_x = 0, ss_y = 0, ss_mask = 0x1FF\<rparr>"
        "\<lparr>ss_x = 3, ss_y = 0, ss_mask = 0x01B\<rparr>"]
    by simp
qed

section \<open>Normalisation\<close>

lemma left_column_test: "m AND LEFT_COLUMN = 0 \<longleftrightarrow> \<not> bit m 0 \<and> \<not> bit m 3 \<and> \<not> bit m 6"
proof -
  have e: "LEFT_COLUMN = 2 ^ 0 OR 2 ^ 3 OR (2 ^ 6 :: val_t)" by (simp add: flag_defs)
  show ?thesis
    unfolding e by (simp only: bit.conj_disj_distrib or_eq_0_iff and_exp_eq_0_iff_not_bit conj_assoc)
qed

lemma top_row_test: "m AND TOP_ROW = 0 \<longleftrightarrow> \<not> bit m 0 \<and> \<not> bit m 1 \<and> \<not> bit m 2"
proof -
  have e: "TOP_ROW = 2 ^ 0 OR 2 ^ 1 OR (2 ^ 2 :: val_t)" by (simp add: flag_defs)
  show ?thesis
    unfolding e by (simp only: bit.conj_disj_distrib or_eq_0_iff and_exp_eq_0_iff_not_bit conj_assoc)
qed

lemma mask9_iff: "mask9 m \<longleftrightarrow> (\<forall>i. bit m i \<longrightarrow> i < 9)"
proof
  assume "mask9 m" then show "\<forall>i. bit m i \<longrightarrow> i < 9" using mask9_bit by blast
next
  assume a: "\<forall>i. bit m i \<longrightarrow> i < 9"
  have "m AND mask 9 = m" using a by (auto simp add: bit_eq_iff bit_simps)
  then have "m \<le> mask 9" by (metis word_and_le1)
  then show "mask9 m" by (simp add: mask9_def nine_mask)
qed

lemma mask9_move_right: "mask9 m \<Longrightarrow> mask9 (move_right m)"
  unfolding mask9_iff move_right_def by (auto simp add: bit_simps)

lemma mask9_move_down: "mask9 m \<Longrightarrow> mask9 (move_down m)"
  unfolding mask9_iff move_down_def by (auto simp add: bit_simps)

lemma left_column_cell: "m AND LEFT_COLUMN = 0 \<longleftrightarrow> \<not> cell m 0 0 \<and> \<not> cell m 0 1 \<and> \<not> cell m 0 2"
  by (simp add: left_column_test cell_def)

lemma top_row_cell: "m AND TOP_ROW = 0 \<longleftrightarrow> \<not> cell m 0 0 \<and> \<not> cell m 1 0 \<and> \<not> cell m 2 0"
  by (simp add: top_row_test cell_def)

lemma left_empty_squares:
  assumes "m AND LEFT_COLUMN = 0" and "(px, py) \<in> squares \<lparr>ss_x = X, ss_y = Y, ss_mask = m\<rparr>"
  shows "X + 1 \<le> px"
proof (rule ccontr)
  assume "\<not> X + 1 \<le> px"
  then have "px - X = 0" using assms(2) by (simp add: in_squares_cell)
  moreover have "py - Y = 0 \<or> py - Y = 1 \<or> py - Y = 2" using assms(2) by (auto simp add: in_squares_cell)
  ultimately show False using assms by (auto simp add: in_squares_cell left_column_cell)
qed

lemma top_empty_squares:
  assumes "m AND TOP_ROW = 0" and "(px, py) \<in> squares \<lparr>ss_x = X, ss_y = Y, ss_mask = m\<rparr>"
  shows "Y + 1 \<le> py"
proof (rule ccontr)
  assume "\<not> Y + 1 \<le> py"
  then have "py - Y = 0" using assms(2) by (simp add: in_squares_cell)
  moreover have "px - X = 0 \<or> px - X = 1 \<or> px - X = 2" using assms(2) by (auto simp add: in_squares_cell)
  ultimately show False using assms by (auto simp add: in_squares_cell top_row_cell)
qed

lemma left_nonempty:
  assumes "(X, py) \<in> squares \<lparr>ss_x = X, ss_y = Y, ss_mask = m\<rparr>"
  shows "m AND LEFT_COLUMN \<noteq> 0"
  using left_empty_squares [OF _ assms] by auto

lemma top_nonempty:
  assumes "(px, Y) \<in> squares \<lparr>ss_x = X, ss_y = Y, ss_mask = m\<rparr>"
  shows "m AND TOP_ROW \<noteq> 0"
  using top_empty_squares [OF _ assms] by auto

lemma squares_step_right:
  assumes "m AND LEFT_COLUMN = 0"
  shows "squares \<lparr>ss_x = X + 1, ss_y = Y, ss_mask = move_right m\<rparr> =
     squares \<lparr>ss_x = X, ss_y = Y, ss_mask = m\<rparr>"
  unfolding squares_move_right using left_empty_squares [OF assms] by auto

lemma squares_step_down:
  assumes "m AND TOP_ROW = 0"
  shows "squares \<lparr>ss_x = X, ss_y = Y + 1, ss_mask = move_down m\<rparr> =
     squares \<lparr>ss_x = X, ss_y = Y, ss_mask = m\<rparr>"
  unfolding squares_move_down using top_empty_squares [OF assms] by auto


lemma left_nonempty_iff:
  "m AND LEFT_COLUMN \<noteq> 0 \<longleftrightarrow> (\<exists>py. (X, py) \<in> squares \<lparr>ss_x = X, ss_y = Y, ss_mask = m\<rparr>)"
proof
  assume "m AND LEFT_COLUMN \<noteq> 0"
  then have "cell m 0 0 \<or> cell m 0 1 \<or> cell m 0 2" by (simp add: left_column_cell)
  then have "(X, Y) \<in> squares \<lparr>ss_x = X, ss_y = Y, ss_mask = m\<rparr> \<or>
     (X, Y + 1) \<in> squares \<lparr>ss_x = X, ss_y = Y, ss_mask = m\<rparr> \<or>
     (X, Y + 2) \<in> squares \<lparr>ss_x = X, ss_y = Y, ss_mask = m\<rparr>"
    by (simp add: in_squares_cell)
  then show "\<exists>py. (X, py) \<in> squares \<lparr>ss_x = X, ss_y = Y, ss_mask = m\<rparr>" by blast
next
  assume "\<exists>py. (X, py) \<in> squares \<lparr>ss_x = X, ss_y = Y, ss_mask = m\<rparr>"
  then show "m AND LEFT_COLUMN \<noteq> 0" using left_nonempty by blast
qed

lemma squares_nonempty:
  assumes "mask9 m" "m \<noteq> 0"
  shows "\<exists>px py. (px, py) \<in> squares \<lparr>ss_x = X, ss_y = Y, ss_mask = m\<rparr>"
proof -
  from assms(2) obtain i where i: "bit m i" by (auto simp add: bit_eq_iff)
  then have "i < 9" using mask9_bit [OF assms(1)] by blast
  then show ?thesis using i unfolding in_squares by auto
qed

lemma normalize_x_total:
  assumes "mask9 m" "(px, py) \<in> squares \<lparr>ss_x = x, ss_y = Y, ss_mask = m\<rparr>"
  shows "\<exists>x' m'. normalize_x x m = Some (x', m') \<and> m' AND LEFT_COLUMN \<noteq> 0 \<and> mask9 m' \<and>
    squares \<lparr>ss_x = x', ss_y = Y, ss_mask = m'\<rparr> = squares \<lparr>ss_x = x, ss_y = Y, ss_mask = m\<rparr>"
  using assms
proof (induction k \<equiv> "nat (px - x)" arbitrary: x m)
  case 0
  then have "px = x" by (simp add: in_squares_cell)
  then have "m AND LEFT_COLUMN \<noteq> 0" using "0.prems"(2) left_nonempty by blast
  then have "normalize_x x m = Some (x, m)" by (subst normalize_x.simps) simp
  then show ?case using \<open>m AND LEFT_COLUMN \<noteq> 0\<close> "0.prems"(1) by blast
next
  case (Suc k)
  show ?case
  proof (cases "m AND LEFT_COLUMN = 0")
    case False
    then have "normalize_x x m = Some (x, m)" by (subst normalize_x.simps) simp
    then show ?thesis using False Suc.prems(1) by blast
  next
    case True
    have e: "squares \<lparr>ss_x = x + 1, ss_y = Y, ss_mask = move_right m\<rparr> =
       squares \<lparr>ss_x = x, ss_y = Y, ss_mask = m\<rparr>" by (rule squares_step_right [OF True])
    have "k = nat (px - (x + 1))" using Suc.hyps(2) by simp
    moreover have "mask9 (move_right m)" by (rule mask9_move_right [OF Suc.prems(1)])
    moreover have "(px, py) \<in> squares \<lparr>ss_x = x + 1, ss_y = Y, ss_mask = move_right m\<rparr>"
      unfolding e by (rule Suc.prems(2))
    ultimately obtain x' m' where r: "normalize_x (x + 1) (move_right m) = Some (x', m')"
      "m' AND LEFT_COLUMN \<noteq> 0" "mask9 m'"
      "squares \<lparr>ss_x = x', ss_y = Y, ss_mask = m'\<rparr> =
        squares \<lparr>ss_x = x + 1, ss_y = Y, ss_mask = move_right m\<rparr>"
      using Suc.hyps(1) by blast
    have "normalize_x x m = normalize_x (x + 1) (move_right m)"
      using True by (subst normalize_x.simps) simp
    then show ?thesis using r e by auto
  qed
qed

lemma normalize_y_total:
  assumes "mask9 m" "(px, py) \<in> squares \<lparr>ss_x = X, ss_y = y, ss_mask = m\<rparr>"
  shows "\<exists>y' m'. normalize_y y m = Some (y', m') \<and> m' AND TOP_ROW \<noteq> 0 \<and> mask9 m' \<and>
    squares \<lparr>ss_x = X, ss_y = y', ss_mask = m'\<rparr> = squares \<lparr>ss_x = X, ss_y = y, ss_mask = m\<rparr>"
  using assms
proof (induction k \<equiv> "nat (py - y)" arbitrary: y m)
  case 0
  then have "py = y" by (simp add: in_squares_cell)
  then have "m AND TOP_ROW \<noteq> 0" using "0.prems"(2) top_nonempty by blast
  then have "normalize_y y m = Some (y, m)" by (subst normalize_y.simps) simp
  then show ?case using \<open>m AND TOP_ROW \<noteq> 0\<close> "0.prems"(1) by blast
next
  case (Suc k)
  show ?case
  proof (cases "m AND TOP_ROW = 0")
    case False
    then have "normalize_y y m = Some (y, m)" by (subst normalize_y.simps) simp
    then show ?thesis using False Suc.prems(1) by blast
  next
    case True
    have e: "squares \<lparr>ss_x = X, ss_y = y + 1, ss_mask = move_down m\<rparr> =
       squares \<lparr>ss_x = X, ss_y = y, ss_mask = m\<rparr>" by (rule squares_step_down [OF True])
    have "k = nat (py - (y + 1))" using Suc.hyps(2) by simp
    moreover have "mask9 (move_down m)" by (rule mask9_move_down [OF Suc.prems(1)])
    moreover have "(px, py) \<in> squares \<lparr>ss_x = X, ss_y = y + 1, ss_mask = move_down m\<rparr>"
      unfolding e by (rule Suc.prems(2))
    ultimately obtain y' m' where r: "normalize_y (y + 1) (move_down m) = Some (y', m')"
      "m' AND TOP_ROW \<noteq> 0" "mask9 m'"
      "squares \<lparr>ss_x = X, ss_y = y', ss_mask = m'\<rparr> =
        squares \<lparr>ss_x = X, ss_y = y + 1, ss_mask = move_down m\<rparr>"
      using Suc.hyps(1) by blast
    have "normalize_y y m = normalize_y (y + 1) (move_down m)"
      using True by (subst normalize_y.simps) simp
    then show ?thesis using r e by auto
  qed
qed

lemma normalize_fixed:
  assumes "ss_mask s = 0 \<or> (ss_mask s AND LEFT_COLUMN \<noteq> 0 \<and> ss_mask s AND TOP_ROW \<noteq> 0)"
  shows "normalize s = Some s"
proof (cases "ss_mask s = 0")
  case True
  then show ?thesis by (simp add: normalize_def)
next
  case False
  then have a: "ss_mask s AND LEFT_COLUMN \<noteq> 0" "ss_mask s AND TOP_ROW \<noteq> 0" using assms by auto
  have "normalize_x (ss_x s) (ss_mask s) = Some (ss_x s, ss_mask s)"
    using a(1) by (subst normalize_x.simps) simp
  moreover have "normalize_y (ss_y s) (ss_mask s) = Some (ss_y s, ss_mask s)"
    using a(2) by (subst normalize_y.simps) simp
  ultimately show ?thesis using False by (simp add: normalize_def)
qed

lemma normalize_total:
  assumes "mask9 (ss_mask s)" "ss_mask s \<noteq> 0"
  shows "\<exists>s'. normalize s = Some s' \<and> ss_mask s' AND LEFT_COLUMN \<noteq> 0 \<and>
    ss_mask s' AND TOP_ROW \<noteq> 0 \<and> mask9 (ss_mask s') \<and> squares s' = squares s"
proof -
  have s: "\<lparr>ss_x = ss_x s, ss_y = ss_y s, ss_mask = ss_mask s\<rparr> = s" by simp
  obtain px py where p: "(px, py) \<in> squares \<lparr>ss_x = ss_x s, ss_y = ss_y s, ss_mask = ss_mask s\<rparr>"
    using squares_nonempty [OF assms] by blast
  obtain x' m1 where x: "normalize_x (ss_x s) (ss_mask s) = Some (x', m1)"
    "m1 AND LEFT_COLUMN \<noteq> 0" "mask9 m1"
    "squares \<lparr>ss_x = x', ss_y = ss_y s, ss_mask = m1\<rparr> =
       squares \<lparr>ss_x = ss_x s, ss_y = ss_y s, ss_mask = ss_mask s\<rparr>"
    using normalize_x_total [OF assms(1) p] by blast
  have p1: "(px, py) \<in> squares \<lparr>ss_x = x', ss_y = ss_y s, ss_mask = m1\<rparr>"
    unfolding x(4) by (rule p)
  obtain y' m2 where y: "normalize_y (ss_y s) m1 = Some (y', m2)"
    "m2 AND TOP_ROW \<noteq> 0" "mask9 m2"
    "squares \<lparr>ss_x = x', ss_y = y', ss_mask = m2\<rparr> =
       squares \<lparr>ss_x = x', ss_y = ss_y s, ss_mask = m1\<rparr>"
    using normalize_y_total [OF x(3) p1] by blast
  obtain qy where "(x', qy) \<in> squares \<lparr>ss_x = x', ss_y = ss_y s, ss_mask = m1\<rparr>"
    using x(2) left_nonempty_iff [of m1 x' "ss_y s"] by blast
  then have "(x', qy) \<in> squares \<lparr>ss_x = x', ss_y = y', ss_mask = m2\<rparr>" unfolding y(4) .
  then have l: "m2 AND LEFT_COLUMN \<noteq> 0" by (rule left_nonempty)
  have "normalize s = Some \<lparr>ss_x = x', ss_y = y', ss_mask = m2\<rparr>"
    using assms(2) x(1) y(1) by (simp add: normalize_def)
  moreover have "squares \<lparr>ss_x = x', ss_y = y', ss_mask = m2\<rparr> = squares s"
    unfolding y(4) x(4) s by (rule refl)
  ultimately show ?thesis using l y(2,3) by simp
qed

text \<open>
  Claim C8.  For a square set \<open>s\<close> of the data model (a mask of nine bits), \<open>normalize\<close>
  returns; normalising the result again changes nothing; a set with an empty mask is left
  as it is; and for a non-empty mask the result has a bit in the left column and a bit in
  the top row, and denotes the same squares as \<open>s\<close>.
\<close>

theorem normalize_properties:
  assumes "mask9 (ss_mask s)"
  shows "\<exists>s'. normalize s = Some s' \<and> normalize s' = Some s' \<and>
    (ss_mask s = 0 \<longrightarrow> s' = s) \<and>
    (ss_mask s \<noteq> 0 \<longrightarrow> ss_mask s' AND LEFT_COLUMN \<noteq> 0 \<and> ss_mask s' AND TOP_ROW \<noteq> 0 \<and>
       squares s' = squares s)"
proof (cases "ss_mask s = 0")
  case True
  then have "normalize s = Some s" by (simp add: normalize_fixed)
  then show ?thesis using True by simp
next
  case False
  from normalize_total [OF assms False] obtain s' where s': "normalize s = Some s'"
    "ss_mask s' AND LEFT_COLUMN \<noteq> 0" "ss_mask s' AND TOP_ROW \<noteq> 0" "squares s' = squares s"
    by blast
  have "normalize s' = Some s'" using s'(2,3) by (simp add: normalize_fixed)
  then show ?thesis using s' False by simp
qed

theorem normalize_properties_witness:
  "mask9 0x100 \<and>
   normalize \<lparr>ss_x = 1, ss_y = 1, ss_mask = 0x100\<rparr> = Some \<lparr>ss_x = 3, ss_y = 3, ss_mask = 1\<rparr> \<and>
   normalize \<lparr>ss_x = 3, ss_y = 3, ss_mask = 1\<rparr> = Some \<lparr>ss_x = 3, ss_y = 3, ss_mask = 1\<rparr> \<and>
   squares \<lparr>ss_x = 3, ss_y = 3, ss_mask = 1\<rparr> = squares \<lparr>ss_x = 1, ss_y = 1, ss_mask = 0x100\<rparr>"
proof -
  have m: "mask9 0x100" by (simp add: mask9_def)
  have n: "normalize \<lparr>ss_x = 1, ss_y = 1, ss_mask = 0x100\<rparr> = Some \<lparr>ss_x = 3, ss_y = 3, ss_mask = 1\<rparr>"
    by (simp add: normalize_def normalize_x.simps normalize_y.simps move_right_def move_down_def
        mask_not_def flag_defs)
  show ?thesis
    using m n normalize_properties [of "\<lparr>ss_x = 1, ss_y = 1, ss_mask = 0x100\<rparr>"] by auto
qed

section \<open>The set store: overlap and canonical keys\<close>

lemma squareset_less_trans: "squareset_less a b \<Longrightarrow> squareset_less b c \<Longrightarrow> squareset_less a c"
  by (auto simp add: squareset_less_def)

lemma squareset_less_irrefl: "\<not> squareset_less a a"
  by (simp add: squareset_less_def)

lemma same_key_iff:
  "same_key a b \<longleftrightarrow> ss_x a = ss_x b \<and> ss_y a = ss_y b \<and> ss_mask a = ss_mask b"
  by (auto simp add: same_key_def squareset_less_def)

lemma same_key_eq: "same_key (a::SquareSet) b \<longleftrightarrow> a = b"
  by (auto simp add: same_key_iff)

lemma mask9_and: "mask9 a \<Longrightarrow> mask9 (a AND b)"
  unfolding mask9_iff by (auto simp add: bit_simps)

lemma mask_nonzero_iff:
  assumes "mask9 m"
  shows "m \<noteq> 0 \<longleftrightarrow> squares \<lparr>ss_x = X, ss_y = Y, ss_mask = m\<rparr> \<noteq> {}"
  using squares_nonempty [OF assms, of X Y] by auto

lemma and_nonzero_iff:
  assumes "mask9 (ss_mask a)"
  shows "ss_mask (squareset_and a b) \<noteq> 0 \<longleftrightarrow> squares a \<inter> squares b \<noteq> {}"
proof -
  have m: "mask9 (ss_mask (squareset_and a b))"
    using assms by (simp add: squareset_and_def Let_def mask9_and)
  have "squareset_and a b =
      \<lparr>ss_x = ss_x a, ss_y = ss_y a, ss_mask = ss_mask (squareset_and a b)\<rparr>"
    by (simp add: squareset_and_def Let_def)
  then have "squares (squareset_and a b) =
      squares \<lparr>ss_x = ss_x a, ss_y = ss_y a, ss_mask = ss_mask (squareset_and a b)\<rparr>" by simp
  then show ?thesis using mask_nonzero_iff [OF m, of "ss_x a" "ss_y a"] by (simp add: squares_and)
qed

lemma and_nonzero_commute:
  assumes "mask9 (ss_mask a)" "mask9 (ss_mask b)"
  shows "ss_mask (squareset_and a b) \<noteq> 0 \<longleftrightarrow> ss_mask (squareset_and b a) \<noteq> 0"
  using and_nonzero_iff [OF assms(1), of b] and_nonzero_iff [OF assms(2), of a] by blast

lemma in_dropWhile: "e \<in> set xs \<Longrightarrow> \<not> Q e \<Longrightarrow> e \<in> set (dropWhile Q xs)"
  by (induction xs) auto

lemma dropWhile_all_not:
  assumes "sorted_wrt R xs" and "\<And>a b. R a b \<Longrightarrow> Q b \<Longrightarrow> Q a"
  shows "\<forall>f \<in> set (dropWhile Q xs). \<not> Q f"
  using assms(1)
proof (induction xs)
  case Nil
  then show ?case by simp
next
  case (Cons f fs)
  show ?case
  proof (cases "Q f")
    case True
    have "sorted_wrt R fs" using Cons.prems by simp
    then have "\<forall>g \<in> set (dropWhile Q fs). \<not> Q g" by (rule Cons.IH)
    then show ?thesis using True by simp
  next
    case False
    have "\<not> Q g" if "g \<in> set fs" for g
    proof
      assume "Q g"
      moreover have "R f g" using Cons.prems that by simp
      ultimately have "Q f" using assms(2) by blast
      then show False using False by simp
    qed
    then show ?thesis using False by auto
  qed
qed

lemma in_takeWhile:
  assumes "sorted_wrt R xs" "e \<in> set xs" "P e" "\<forall>f \<in> set xs. R f e \<longrightarrow> P f"
  shows "e \<in> set (takeWhile P xs)"
  using assms
proof (induction xs)
  case Nil
  then show ?case by simp
next
  case (Cons f fs)
  show ?case
  proof (cases "f = e")
    case True
    then show ?thesis using Cons.prems(3) by simp
  next
    case False
    then have "e \<in> set fs" using Cons.prems(2) by simp
    then have "R f e" using Cons.prems(1) by simp
    then have "P f" using Cons.prems(4) by simp
    moreover have "e \<in> set (takeWhile P fs)"
      using Cons.IH Cons.prems \<open>e \<in> set fs\<close> by simp
    ultimately show ?thesis by simp
  qed
qed

lemma sorted_wrt_dropWhile: "sorted_wrt R xs \<Longrightarrow> sorted_wrt R (dropWhile Q xs)"
  by (induction xs) auto

lemma overlap_at_complete:
  assumes "store_sorted ss" "e \<in> set (ss_elements ss)"
    "ss_mask (squareset_and (el_set e) input) \<noteq> 0"
  shows "el_set e \<in> set (overlap_at ss input (ss_x (el_set e)) (ss_y (el_set e)))"
proof -
  define key0 where "key0 = \<lparr>ss_x = ss_x (el_set e), ss_y = ss_y (el_set e), ss_mask = 0\<rparr>"
  define Q where "Q = (\<lambda>f::SetStoreElement. squareset_less (el_set f) key0)"
  define P where "P = (\<lambda>f::SetStoreElement.
    ss_x (el_set f) = ss_x (el_set e) \<and> ss_y (el_set f) = ss_y (el_set e))"
  define R where "R = (\<lambda>(f::SetStoreElement) (g::SetStoreElement).
    squareset_less (el_set f) (el_set g))"
  have srt: "sorted_wrt R (ss_elements ss)"
    using assms(1) by (simp add: store_sorted_def sorted_wrt_map R_def)
  have nq: "\<not> Q e" by (simp add: Q_def key0_def squareset_less_def)
  have e1: "e \<in> set (dropWhile Q (ss_elements ss))" by (rule in_dropWhile [of e "ss_elements ss" Q, OF assms(2) nq])
  have anti: "\<And>a b. R a b \<Longrightarrow> Q b \<Longrightarrow> Q a"
    unfolding R_def Q_def by (rule squareset_less_trans)
  have allnq: "\<forall>f \<in> set (dropWhile Q (ss_elements ss)). \<not> Q f"
    by (rule dropWhile_all_not [OF srt anti])
  have pf: "\<forall>f \<in> set (dropWhile Q (ss_elements ss)). R f e \<longrightarrow> P f"
  proof (intro ballI impI)
    fix f assume "f \<in> set (dropWhile Q (ss_elements ss))" and r: "R f e"
    then have "\<not> Q f" using allnq by blast
    then show "P f" using r by (auto simp add: Q_def R_def P_def key0_def squareset_less_def)
  qed
  have "e \<in> set (takeWhile P (dropWhile Q (ss_elements ss)))"
    by (rule in_takeWhile [OF sorted_wrt_dropWhile [OF srt] e1 _ pf]) (simp add: P_def)
  then show ?thesis
    using assms(3) by (auto simp add: overlap_at_def lower_bound_def Q_def P_def key0_def)
qed

lemma overlap_at_sound:
  assumes "k \<in> set (overlap_at ss input xx yy)"
  shows "\<exists>e \<in> set (ss_elements ss). el_set e = k \<and> ss_mask (squareset_and (el_set e) input) \<noteq> 0"
proof -
  from assms obtain e where e: "el_set e = k" "ss_mask (squareset_and (el_set e) input) \<noteq> 0"
    "e \<in> set (takeWhile (\<lambda>e. ss_x (el_set e) = xx \<and> ss_y (el_set e) = yy)
             (lower_bound \<lparr>ss_x = xx, ss_y = yy, ss_mask = 0\<rparr> (ss_elements ss)))"
    by (auto simp add: overlap_at_def)
  then have "e \<in> set (ss_elements ss)"
    unfolding lower_bound_def by (meson set_dropWhileD set_takeWhileD)
  then show ?thesis using e by blast
qed

lemma in_concat2:
  "k \<in> set (concat (map (\<lambda>xx. concat (map (\<lambda>yy. F xx yy) ys)) xs)) \<longleftrightarrow>
     (\<exists>xx \<in> set xs. \<exists>yy \<in> set ys. k \<in> set (F xx yy))"
  by auto

lemma in_overlap:
  "k \<in> set (overlap ss x y m) \<longleftrightarrow>
     (\<exists>xx \<in> set [x - 2, x - 1, x, x + 1, x + 2]. \<exists>yy \<in> set [y - 2, y - 1, y, y + 1, y + 2].
        k \<in> set (overlap_at ss \<lparr>ss_x = x, ss_y = y, ss_mask = m\<rparr> xx yy))"
  unfolding overlap_def by (rule in_concat2)

lemma near5: "\<bar>a - x\<bar> \<le> 2 \<Longrightarrow> a \<in> set [x - 2, x - 1, x, x + 1, x + (2::int)]"
  by (simp add: abs_le_iff) arith

lemma intersect_near:
  assumes "(px, py) \<in> squares a" "(px, py) \<in> squares b"
  shows "\<bar>ss_x a - ss_x b\<bar> \<le> 2 \<and> \<bar>ss_y a - ss_y b\<bar> \<le> 2"
  using squares_window [OF assms(1)] squares_window [OF assms(2)] by (simp add: abs_le_iff)

text \<open>
  Claim C7.  In a store (elements in the order of their keys) of sets of the data model,
  for a query set \<open>s1 = (x, y, m)\<close> of the data model: every stored element \<open>s2\<close> for which
  the mask of \<open>s1 & s2\<close> is not empty is returned by \<open>overlap(x, y, m)\<close>; and every element
  that \<open>overlap\<close> returns is stored and has a non-empty intersection with the query.
\<close>

theorem overlap_complete:
  assumes "store_sorted ss" and "mask9 m"
    and "\<forall>e \<in> set (ss_elements ss). mask9 (ss_mask (el_set e))"
  shows "(\<forall>e \<in> set (ss_elements ss).
            ss_mask (squareset_and \<lparr>ss_x = x, ss_y = y, ss_mask = m\<rparr> (el_set e)) \<noteq> 0 \<longrightarrow>
            el_set e \<in> set (overlap ss x y m)) \<and>
         (\<forall>k \<in> set (overlap ss x y m). \<exists>e \<in> set (ss_elements ss). el_set e = k \<and>
            ss_mask (squareset_and \<lparr>ss_x = x, ss_y = y, ss_mask = m\<rparr> (el_set e)) \<noteq> 0)"
proof (intro conjI ballI impI)
  fix e
  let ?in = "\<lparr>ss_x = x, ss_y = y, ss_mask = m\<rparr>"
  assume e: "e \<in> set (ss_elements ss)" and nz: "ss_mask (squareset_and ?in (el_set e)) \<noteq> 0"
  have me: "mask9 (ss_mask (el_set e))" using assms(3) e by blast
  have mi: "mask9 (ss_mask ?in)" using assms(2) by simp
  from nz obtain px py where p: "(px, py) \<in> squares ?in" "(px, py) \<in> squares (el_set e)"
    using and_nonzero_iff [OF mi, of "el_set e"] by auto
  have near: "\<bar>ss_x (el_set e) - x\<bar> \<le> 2 \<and> \<bar>ss_y (el_set e) - y\<bar> \<le> 2"
    using intersect_near [OF p(2) p(1)] by simp
  have nz': "ss_mask (squareset_and (el_set e) ?in) \<noteq> 0"
    using and_nonzero_commute [OF mi me] nz by blast
  have "el_set e \<in> set (overlap_at ss ?in (ss_x (el_set e)) (ss_y (el_set e)))"
    by (rule overlap_at_complete [OF assms(1) e nz'])
  moreover have "ss_x (el_set e) \<in> set [x - 2, x - 1, x, x + 1, x + 2]"
    using near by (intro near5) simp
  moreover have "ss_y (el_set e) \<in> set [y - 2, y - 1, y, y + 1, y + 2]"
    using near by (intro near5) simp
  ultimately show "el_set e \<in> set (overlap ss x y m)"
    unfolding in_overlap by (intro bexI)
next
  fix k
  let ?in = "\<lparr>ss_x = x, ss_y = y, ss_mask = m\<rparr>"
  assume "k \<in> set (overlap ss x y m)"
  then obtain xx yy where "k \<in> set (overlap_at ss ?in xx yy)" unfolding in_overlap by blast
  then obtain e where e: "e \<in> set (ss_elements ss)" "el_set e = k"
    "ss_mask (squareset_and (el_set e) ?in) \<noteq> 0" using overlap_at_sound by blast
  have me: "mask9 (ss_mask (el_set e))" using assms(3) e(1) by blast
  have mi: "mask9 (ss_mask ?in)" using assms(2) by simp
  have "ss_mask (squareset_and ?in (el_set e)) \<noteq> 0"
    using and_nonzero_commute [OF mi me] e(3) by blast
  then show "\<exists>e \<in> set (ss_elements ss). el_set e = k \<and>
            ss_mask (squareset_and ?in (el_set e)) \<noteq> 0" using e by blast
qed


lemma rbind_ok [simp]: "rbind (ok v) f = f v"
  by (simp add: rbind_def ok_def)

lemma rbind_failure [simp]: "rbind (failure e) f = failure e"
  by (simp add: rbind_def failure_def)

lemma rbind_None [simp]: "rbind None f = None"
  by (simp add: rbind_def)

lemma ok_neq [simp]: "ok v \<noteq> failure e" "failure e \<noteq> ok v" "ok v \<noteq> None" "None \<noteq> ok v"
  "failure e \<noteq> None" "None \<noteq> failure e"
  by (simp_all add: ok_def failure_def)

lemma ok_inject [simp]: "ok v = ok w \<longleftrightarrow> v = w"
  by (simp add: ok_def)

lemma rbind_eq_ok: "rbind m f = ok w \<longleftrightarrow> (\<exists>v. m = ok v \<and> f v = ok w)"
  by (auto simp add: rbind_def ok_def split: option.splits sum.splits)

lemma map_find_Some:
  "map_find k es = Some e \<Longrightarrow> e \<in> set es \<and> el_set e = k"
  by (induction es) (auto simp add: same_key_eq split: if_splits)

lemma map_find_None: "map_find k es = None \<longleftrightarrow> (\<forall>e \<in> set es. el_set e \<noteq> k)"
  by (induction es) (auto simp add: same_key_eq)

lemma map_insert_present:
  assumes "sorted_wrt squareset_less (map el_set es)" "f \<in> set es" "el_set f = el_set e"
  shows "map_insert e es = (es, False)"
  using assms
proof (induction es)
  case Nil
  then show ?case by simp
next
  case (Cons g gs)
  show ?case
  proof (cases "g = f")
    case True
    then show ?thesis using Cons.prems(3) by (simp add: squareset_less_irrefl)
  next
    case False
    then have fin: "f \<in> set gs" using Cons.prems(2) by simp
    then have lt: "squareset_less (el_set g) (el_set e)" using Cons.prems(1,3) by auto
    then have nlt: "\<not> squareset_less (el_set e) (el_set g)"
      using squareset_less_trans squareset_less_irrefl by blast
    have "map_insert e gs = (gs, False)" using Cons.IH Cons.prems fin by simp
    then show ?thesis using lt nlt by simp
  qed
qed

lemma map_insert_absent:
  assumes "sorted_wrt squareset_less (map el_set es)" "\<forall>f \<in> set es. el_set f \<noteq> el_set e"
  shows "\<exists>es'. map_insert e es = (es', True) \<and> sorted_wrt squareset_less (map el_set es') \<and>
    set es' = insert e (set es)"
  using assms
proof (induction es)
  case Nil
  then show ?case by simp
next
  case (Cons g gs)
  show ?case
  proof (cases "squareset_less (el_set e) (el_set g)")
    case True
    have "\<forall>h \<in> set gs. squareset_less (el_set e) (el_set h)"
      using Cons.prems(1) True squareset_less_trans by auto
    then show ?thesis using True Cons.prems(1) by auto
  next
    case False
    have "\<not> same_key (el_set g) (el_set e)" using Cons.prems(2) by (simp add: same_key_eq)
    then have lt: "squareset_less (el_set g) (el_set e)" using False by (auto simp add: same_key_def)
    obtain es' where es': "map_insert e gs = (es', True)"
      "sorted_wrt squareset_less (map el_set es')" "set es' = insert e (set gs)"
      using Cons.IH Cons.prems by auto
    have "sorted_wrt squareset_less (map el_set (g # es'))"
      using es'(2,3) lt Cons.prems(1) by auto
    then show ?thesis using False lt es' by auto
  qed
qed


lemma filter_key_sorted:
  assumes "sorted_wrt squareset_less (map el_set es)" "e \<in> set es"
  shows "filter (\<lambda>f. el_set f = el_set e) es = [e]"
  using assms
proof (induction es)
  case Nil
  then show ?case by simp
next
  case (Cons g gs)
  show ?case
  proof (cases "g = e")
    case True
    have "\<forall>h \<in> set gs. el_set h \<noteq> el_set e"
      using Cons.prems(1) True squareset_less_irrefl by auto
    then have "filter (\<lambda>f. el_set f = el_set e) gs = []" by (simp add: filter_empty_conv)
    then show ?thesis using True by simp
  next
    case False
    then have "e \<in> set gs" using Cons.prems(2) by simp
    moreover from this have "el_set g \<noteq> el_set e"
      using Cons.prems(1) squareset_less_irrefl by auto
    ultimately show ?thesis using Cons.IH Cons.prems(1) by simp
  qed
qed

lemma map_find_unique:
  assumes "e \<in> set es" "\<forall>f \<in> set es. el_set f = el_set e \<longrightarrow> f = e"
  shows "map_find (el_set e) es = Some e"
proof (cases "map_find (el_set e) es")
  case None
  then have "el_set e \<noteq> el_set e" using assms(1) unfolding map_find_None by blast
  then show ?thesis by simp
next
  case (Some f)
  then show ?thesis using map_find_Some [OF Some] assms(2) by simp
qed

lemma add_present:
  assumes "store_sorted ss" "normalize \<lparr>ss_x = x, ss_y = y, ss_mask = m\<rparr> = Some k"
    "f \<in> set (ss_elements ss)" "el_set f = k"
  shows "add x y m n ss = ok ss"
proof -
  have "map_insert \<lparr>el_set = k, el_mines = n, el_todo = False\<rparr> (ss_elements ss) =
      (ss_elements ss, False)"
    using assms by (intro map_insert_present [where f = f]) (simp_all add: store_sorted_def)
  then show ?thesis using assms(2) by (simp add: add_def)
qed

lemma add_absent:
  assumes "store_sorted ss" "normalize \<lparr>ss_x = x, ss_y = y, ss_mask = m\<rparr> = Some k"
    "\<forall>f \<in> set (ss_elements ss). el_set f \<noteq> k"
  shows "\<exists>ss'. add x y m n ss = ok ss' \<and> store_sorted ss' \<and>
    filter (\<lambda>e. el_set e = k) (ss_elements ss') = [\<lparr>el_set = k, el_mines = n, el_todo = True\<rparr>]"
proof -
  let ?e = "\<lparr>el_set = k, el_mines = n, el_todo = False\<rparr>"
  obtain es' where es': "map_insert ?e (ss_elements ss) = (es', True)"
    "sorted_wrt squareset_less (map el_set es')" "set es' = insert ?e (set (ss_elements ss))"
    using map_insert_absent [of "ss_elements ss" ?e] assms(1,3) by (auto simp add: store_sorted_def)
  have ein: "?e \<in> set es'" using es'(3) by simp
  have uniq: "\<forall>f \<in> set es'. el_set f = el_set ?e \<longrightarrow> f = ?e" using es'(3) assms(3) by auto
  have mf: "map_find k es' = Some ?e" using map_find_unique [OF ein uniq] by simp
  let ?upd = "map_update k (\<lambda>e. e\<lparr>el_todo := True\<rparr>) es'"
  let ?ss' = "ss\<lparr>ss_elements := ?upd, ss_todolist := ss_todolist ss @ [k]\<rparr>"
  have a: "add x y m n ss = ok ?ss'"
    using assms(2) es'(1) mf by (simp add: add_def add_todo_def deref_def)
  have keys: "map el_set ?upd = map el_set es'" by (simp add: map_update_def)
  have srt: "store_sorted ?ss'" using es'(2) keys by (simp add: store_sorted_def)
  have "filter (\<lambda>e. el_set e = k) ?upd =
      map (\<lambda>e. if same_key (el_set e) k then e\<lparr>el_todo := True\<rparr> else e)
        (filter (\<lambda>e. el_set e = k) es')"
    unfolding map_update_def by (induction es') auto
  also have "filter (\<lambda>e. el_set e = k) es' = [?e]"
    using filter_key_sorted [OF es'(2) ein] by simp
  finally have "filter (\<lambda>e. el_set e = k) (ss_elements ?ss') =
      [\<lparr>el_set = k, el_mines = n, el_todo = True\<rparr>]" by (simp add: same_key_eq)
  then show ?thesis using a srt by blast
qed

lemma adds_present:
  assumes "store_sorted ss" "f \<in> set (ss_elements ss)" "el_set f = k"
    "\<forall>(x, y, m, n) \<in> set calls. normalize \<lparr>ss_x = x, ss_y = y, ss_mask = m\<rparr> = Some k"
  shows "adds calls ss = ok ss"
  using assms(4)
proof (induction calls)
  case Nil
  then show ?case by (simp add: adds_def)
next
  case (Cons c cs)
  obtain x y m n where c: "c = (x, y, m, n)" by (cases c) auto
  have "add x y m n ss = ok ss"
    using Cons.prems c by (intro add_present [OF assms(1) _ assms(2,3)]) simp
  moreover have "adds cs ss = ok ss" using Cons by simp
  ultimately show ?case using c by (simp add: adds_def)
qed

text \<open>
  Claim C5, as amended.  For a sequence of \<open>add\<close> calls whose sets normalise to the same
  key \<open>k\<close>, on a store that does not hold \<open>k\<close> yet: the first call returns a store
  \<open>ss1\<close> that holds exactly one element with the key \<open>k\<close>, with the mine count of that
  call; every later call, whatever its mine count, returns and leaves the whole store
  \<open>ss1\<close> as it is (elements, flags and todo list), and so does the sequence of them.
\<close>

theorem setstore_canonical:
  assumes "store_sorted ss" and "\<forall>f \<in> set (ss_elements ss). el_set f \<noteq> k"
    and "normalize \<lparr>ss_x = x0, ss_y = y0, ss_mask = m0\<rparr> = Some k"
    and "\<forall>(x, y, m, n) \<in> set calls. normalize \<lparr>ss_x = x, ss_y = y, ss_mask = m\<rparr> = Some k"
  shows "\<exists>ss1 e. add x0 y0 m0 n0 ss = ok ss1 \<and>
    (\<forall>(x, y, m, n) \<in> set calls. add x y m n ss1 = ok ss1) \<and>
    adds calls ss1 = ok ss1 \<and>
    adds ((x0, y0, m0, n0) # calls) ss = ok ss1 \<and>
    filter (\<lambda>e. el_set e = k) (ss_elements ss1) = [e] \<and> el_mines e = n0"
proof -
  obtain ss1 where ss1: "add x0 y0 m0 n0 ss = ok ss1" "store_sorted ss1"
    "filter (\<lambda>e. el_set e = k) (ss_elements ss1) = [\<lparr>el_set = k, el_mines = n0, el_todo = True\<rparr>]"
    using add_absent [OF assms(1,3,2)] by blast
  have "\<lparr>el_set = k, el_mines = n0, el_todo = True\<rparr> \<in> set (filter (\<lambda>e. el_set e = k) (ss_elements ss1))"
    unfolding ss1(3) by simp
  then have mem: "\<lparr>el_set = k, el_mines = n0, el_todo = True\<rparr> \<in> set (ss_elements ss1)" by simp
  have key: "el_set \<lparr>el_set = k, el_mines = n0, el_todo = True\<rparr> = k" by simp
  have each: "\<forall>(x, y, m, n) \<in> set calls. add x y m n ss1 = ok ss1"
  proof (clarify)
    fix x y m n assume "(x, y, m, n) \<in> set calls"
    hence "normalize \<lparr>ss_x = x, ss_y = y, ss_mask = m\<rparr> = Some k" using assms(4) by auto
    thus "add x y m n ss1 = ok ss1" by (rule add_present [OF ss1(2) _ mem key])
  qed
  have all: "adds calls ss1 = ok ss1"
    by (rule adds_present [OF ss1(2) mem key assms(4)])
  then have "adds ((x0, y0, m0, n0) # calls) ss = ok ss1" using ss1(1) by (simp add: adds_def)
  then show ?thesis using ss1(1,3) each all by simp
qed

lemma normalize_TOP_LEFT:
  "normalize \<lparr>ss_x = x, ss_y = y, ss_mask = TOP_LEFT\<rparr> = Some \<lparr>ss_x = x, ss_y = y, ss_mask = TOP_LEFT\<rparr>"
  by (rule normalize_fixed) (simp add: flag_defs)

text \<open>
  Claim C5 as stated says that a later \<open>add\<close> of the same key with a different mine count
  is a fatal assertion failure.  \<open>SetStore::add\<close> has no assertion: the second call below,
  with the count 1 after the count 0, returns the store unchanged.
\<close>

theorem setstore_add_inconsistent_counterexample:
  "add 0 0 TOP_LEFT 0 SetStore_empty =
     ok \<lparr>ss_elements = [\<lparr>el_set = \<lparr>ss_x = 0, ss_y = 0, ss_mask = TOP_LEFT\<rparr>, el_mines = 0, el_todo = True\<rparr>],
         ss_todolist = [\<lparr>ss_x = 0, ss_y = 0, ss_mask = TOP_LEFT\<rparr>]\<rparr> \<and>
   add 0 0 TOP_LEFT 1
       \<lparr>ss_elements = [\<lparr>el_set = \<lparr>ss_x = 0, ss_y = 0, ss_mask = TOP_LEFT\<rparr>, el_mines = 0, el_todo = True\<rparr>],
         ss_todolist = [\<lparr>ss_x = 0, ss_y = 0, ss_mask = TOP_LEFT\<rparr>]\<rparr> =
     ok \<lparr>ss_elements = [\<lparr>el_set = \<lparr>ss_x = 0, ss_y = 0, ss_mask = TOP_LEFT\<rparr>, el_mines = 0, el_todo = True\<rparr>],
         ss_todolist = [\<lparr>ss_x = 0, ss_y = 0, ss_mask = TOP_LEFT\<rparr>]\<rparr>"
  by (simp add: add_def normalize_TOP_LEFT SetStore_empty_def add_todo_def deref_def
      same_key_def squareset_less_def map_update_def)

lemma normalize_BOTTOM_RIGHT:
  "normalize \<lparr>ss_x = 1, ss_y = 1, ss_mask = BOTTOM_RIGHT\<rparr> = Some \<lparr>ss_x = 3, ss_y = 3, ss_mask = TOP_LEFT\<rparr>"
  by (simp add: normalize_def normalize_x.simps normalize_y.simps move_right_def move_down_def
      mask_not_def flag_defs)

lemma normalize_CENTER:
  "normalize \<lparr>ss_x = 2, ss_y = 2, ss_mask = CENTER\<rparr> = Some \<lparr>ss_x = 3, ss_y = 3, ss_mask = TOP_LEFT\<rparr>"
  by (simp add: normalize_def normalize_x.simps normalize_y.simps move_right_def move_down_def
      mask_not_def flag_defs)

theorem setstore_canonical_witness:
  "store_sorted \<lparr>ss_elements = [\<lparr>el_set = \<lparr>ss_x = 0, ss_y = 0, ss_mask = TOP_LEFT\<rparr>, el_mines = 1, el_todo = False\<rparr>],
       ss_todolist = []\<rparr> \<and>
   normalize \<lparr>ss_x = 1, ss_y = 1, ss_mask = BOTTOM_RIGHT\<rparr> = Some \<lparr>ss_x = 3, ss_y = 3, ss_mask = TOP_LEFT\<rparr> \<and>
   normalize \<lparr>ss_x = 2, ss_y = 2, ss_mask = CENTER\<rparr> = Some \<lparr>ss_x = 3, ss_y = 3, ss_mask = TOP_LEFT\<rparr> \<and>
   normalize \<lparr>ss_x = 3, ss_y = 3, ss_mask = TOP_LEFT\<rparr> = Some \<lparr>ss_x = 3, ss_y = 3, ss_mask = TOP_LEFT\<rparr> \<and>
   (\<exists>ss1 e.
      add 1 1 BOTTOM_RIGHT 0
        \<lparr>ss_elements = [\<lparr>el_set = \<lparr>ss_x = 0, ss_y = 0, ss_mask = TOP_LEFT\<rparr>, el_mines = 1, el_todo = False\<rparr>],
          ss_todolist = []\<rparr> = ok ss1 \<and>
      add 2 2 CENTER 1 ss1 = ok ss1 \<and> add 3 3 TOP_LEFT 2 ss1 = ok ss1 \<and>
      adds [(2, 2, CENTER, 1), (3, 3, TOP_LEFT, 2)] ss1 = ok ss1 \<and>
      filter (\<lambda>e. el_set e = \<lparr>ss_x = 3, ss_y = 3, ss_mask = TOP_LEFT\<rparr>) (ss_elements ss1) = [e] \<and>
      el_mines e = 0)"
proof -
  let ?ss = "\<lparr>ss_elements = [\<lparr>el_set = \<lparr>ss_x = 0, ss_y = 0, ss_mask = TOP_LEFT\<rparr>, el_mines = 1, el_todo = False\<rparr>],
       ss_todolist = []\<rparr>"
  let ?k = "\<lparr>ss_x = 3, ss_y = 3, ss_mask = TOP_LEFT\<rparr>"
  have s: "store_sorted ?ss" by (simp add: store_sorted_def)
  have a: "\<forall>f \<in> set (ss_elements ?ss). el_set f \<noteq> ?k" by simp
  have c: "\<forall>(x, y, m, n) \<in> set [(2, 2, CENTER, 1), (3, 3, TOP_LEFT, 2)].
      normalize \<lparr>ss_x = x, ss_y = y, ss_mask = m\<rparr> = Some ?k"
    by (simp add: normalize_CENTER normalize_TOP_LEFT)
  show ?thesis
    using setstore_canonical [OF s a normalize_BOTTOM_RIGHT c, of 0] s
    by (simp add: normalize_BOTTOM_RIGHT normalize_CENTER normalize_TOP_LEFT) blast
qed

theorem overlap_complete_witness:
  "store_sorted \<lparr>ss_elements = [\<lparr>el_set = \<lparr>ss_x = 0, ss_y = 0, ss_mask = 3\<rparr>, el_mines = 1, el_todo = False\<rparr>],
       ss_todolist = []\<rparr> \<and> mask9 1 \<and> mask9 3 \<and>
   \<lparr>ss_x = 0, ss_y = 0, ss_mask = 3\<rparr> \<in> set (overlap
     \<lparr>ss_elements = [\<lparr>el_set = \<lparr>ss_x = 0, ss_y = 0, ss_mask = 3\<rparr>, el_mines = 1, el_todo = False\<rparr>],
       ss_todolist = []\<rparr> 1 0 1)"
proof -
  let ?ss = "\<lparr>ss_elements = [\<lparr>el_set = \<lparr>ss_x = 0, ss_y = 0, ss_mask = 3\<rparr>, el_mines = 1, el_todo = False\<rparr>],
       ss_todolist = []\<rparr>"
  have a: "store_sorted ?ss" "mask9 1" "mask9 3" by (simp_all add: store_sorted_def mask9_def)
  have b: "ss_mask (squareset_and \<lparr>ss_x = 1, ss_y = 0, ss_mask = 1\<rparr>
      \<lparr>ss_x = 0, ss_y = 0, ss_mask = 3\<rparr>) \<noteq> 0"
    by (simp add: squareset_and_def SquareSet_at_def loop_left.simps loop_right.simps
        loop_up.simps loop_down.simps move_right_def mask_not_def flag_defs)
  show ?thesis using a b overlap_complete [of ?ss 1 1 0] by simp
qed

section \<open>The generator: determinism\<close>

text \<open>
  The perturbator of a default-constructed generator is a \<open>BuiltinPerturbator\<close>;
  \<open>minegen\<close> resets it before every run of the solver, so its state at the call does not
  matter.
\<close>

lemma reset_builtin:
  assumes "pt_builtin pt1" "pt_builtin pt2"
  shows "reset ntries pt1 = reset ntries pt2"
  using assms by (cases pt1, cases pt2) (simp add: reset_def)

lemma solve_attempts_perturbator:
  assumes "pt_builtin pt1" "pt_builtin pt2"
  shows "solve_attempts R fuel ntries x y nbperturbs game pt1 rng =
         solve_attempts R fuel ntries x y nbperturbs game pt2 rng"
proof (cases fuel)
  case 0
  then show ?thesis by simp
next
  case (Suc k)
  show ?thesis unfolding Suc solve_attempts.simps reset_builtin [OF assms, of ntries] by (rule refl)
qed

lemma returned_grid_rbind:
  "returned_grid (rbind m f) = rbind m (\<lambda>v. returned_grid (f v))"
  by (simp add: returned_grid_def rbind_def split: option.splits sum.splits)

lemma minegen_loop_perturbator:
  assumes "pt_builtin pt1" "pt_builtin pt2"
  shows "returned_grid (minegen_loop R fuel ret0 n x y unique rng pt1 ntries0) =
         returned_grid (minegen_loop R fuel ret0 n x y unique rng pt2 ntries0)"
proof (cases fuel)
  case 0
  then show ?thesis by simp
next
  case (Suc k)
  show ?thesis
  proof (cases unique)
    case True
    have "minegen_loop R (Suc k) ret0 n x y unique rng pt1 ntries0 =
          minegen_loop R (Suc k) ret0 n x y unique rng pt2 ntries0"
      using True by (simp add: solve_attempts_perturbator [OF assms, of R k])
    then show ?thesis unfolding Suc by simp
  next
    case False
    then show ?thesis unfolding Suc
      by (cases "place_mines R ret0 n x y rng")
        (auto simp add: returned_grid_def rbind_def ok_def split: sum.splits)
  qed
qed

lemma minegen_perturbator:
  assumes "pt_builtin pt1" "pt_builtin pt2"
  shows "returned_grid (minegen R fuel w h n x y unique rng pt1) =
         returned_grid (minegen R fuel w h n x y unique rng pt2)"
  unfolding minegen_def returned_grid_rbind minegen_loop_perturbator [OF assms] by (rule refl)

lemma returned_grid_generate:
  "returned_grid (rbind m (\<lambda>(ret, rng, pt). ok (ret, f rng pt))) = returned_grid m"
  by (simp add: returned_grid_def rbind_def ok_def split: option.splits sum.splits)

text \<open>A call that returns within a bound returns the same with every larger bound.\<close>

lemma res_le_refl [simp]: "res_le r r" "res_le None r"
  by (simp_all add: res_le_def)

lemma res_le_rbind:
  assumes "res_le m m'" "\<And>v. res_le (f v) (f' v)"
  shows "res_le (rbind m f) (rbind m' f')"
proof (cases m)
  case None
  then show ?thesis by simp
next
  case (Some a)
  hence "m' = m" using assms(1) by (simp add: res_le_def)
  then show ?thesis using assms(2) Some by (cases a) (simp_all add: rbind_def res_le_def)
qed

lemma res_le_rbind_same:
  assumes "\<And>v. res_le (f v) (f' v)"
  shows "res_le (rbind m f) (rbind m f')"
  by (rule res_le_rbind [OF _ assms]) simp

lemma gd_search_mono:
  "k \<le> k' \<Longrightarrow> res_le (gd_search k sets cursor setused minesleft squaresleft)
     (gd_search k' sets cursor setused minesleft squaresleft)"
proof (induction k arbitrary: k' cursor setused minesleft squaresleft)
  case 0
  then show ?case by simp
next
  case (Suc k)
  then obtain j where j: "k' = Suc j" "k \<le> j" by (cases k') auto
  show ?case unfolding j(1) gd_search.simps Let_def
    using Suc.IH [OF j(2)] by auto
qed

lemma attempt_global_deduction_mono:
  "k \<le> k' \<Longrightarrow> res_le (attempt_global_deduction k n squaresleft minesleft game stodo ss)
     (attempt_global_deduction k' n squaresleft minesleft game stodo ss)"
  unfolding attempt_global_deduction_def Let_def
  by (auto intro!: res_le_rbind gd_search_mono)

lemma solve_loop_mono:
  "k \<le> k' \<Longrightarrow> res_le (solve_loop R k n hp pt rng game stodo ss)
     (solve_loop R k' n hp pt rng game stodo ss)"
proof (induction k arbitrary: k' hp pt rng game stodo ss)
  case 0
  then show ?case by simp
next
  case (Suc k)
  then obtain j where j: "k' = Suc j" "k \<le> j" by (cases k') auto
  note ih = Suc.IH [OF j(2)]
  note gd = attempt_global_deduction_mono [OF j(2)]
  show ?case unfolding j(1) solve_loop.simps Let_def
    by (intro res_le_rbind_same)
      (auto intro!: res_le_rbind ih gd simp add: assert_def split: option.split)
qed

lemma solve_mono:
  "k \<le> k' \<Longrightarrow> res_le (solve R k hp pt rng game) (solve R k' hp pt rng game)"
  unfolding solve_def Let_def
  by (auto intro!: res_le_rbind solve_loop_mono)

lemma solve_attempts_mono:
  "k \<le> k' \<Longrightarrow> res_le (solve_attempts R k ntries x y nb game pt rng)
     (solve_attempts R k' ntries x y nb game pt rng)"
proof (induction k arbitrary: k' nb game pt rng)
  case 0
  then show ?case by simp
next
  case (Suc k)
  then obtain j where j: "k' = Suc j" "k \<le> j" by (cases k') auto
  note ih = Suc.IH [OF j(2)]
  note sv = solve_mono [OF j(2)]
  show ?case unfolding j(1) solve_attempts.simps Let_def
    by (intro res_le_rbind_same)
      (auto intro!: res_le_rbind ih sv simp add: assert_def)
qed

lemma minegen_loop_mono:
  "k \<le> k' \<Longrightarrow> res_le (minegen_loop R k ret0 n x y unique rng pt ntries0)
     (minegen_loop R k' ret0 n x y unique rng pt ntries0)"
proof (induction k arbitrary: k' unique ret0 rng pt ntries0)
  case 0
  then show ?case by simp
next
  case (Suc k)
  then obtain j where j: "k' = Suc j" "k \<le> j" by (cases k') auto
  note ih = Suc.IH [OF j(2)]
  note sv = solve_attempts_mono [OF j(2)]
  show ?case unfolding j(1) minegen_loop.simps Let_def
    by (intro res_le_rbind_same)
      (auto intro!: res_le_rbind ih sv)
qed

lemma generate_mono:
  "k \<le> k' \<Longrightarrow> res_le (generate R k drawn gen params) (generate R k' drawn gen params)"
  unfolding generate_def minegen_def Let_def
  by (auto intro!: res_le_rbind minegen_loop_mono)

lemma generate_same_fuel:
  assumes "p_seed params \<noteq> 0"
    and "pt_builtin (m_perturbator gen1)" and "pt_builtin (m_perturbator gen2)"
  shows "returned_grid (generate R fuel drawn1 gen1 params) =
         returned_grid (generate R fuel drawn2 gen2 params)"
  using assms(1) minegen_perturbator [OF assms(2,3)]
  by (simp add: generate_def Let_def returned_grid_generate)

lemma generate_returns_mono:
  assumes "generate R k drawn gen params \<noteq> None" "k \<le> k'"
  shows "generate R k' drawn gen params = generate R k drawn gen params"
  using generate_mono [OF assms(2), of R drawn gen params] assms(1) by (simp add: res_le_def)

text \<open>
  Claim C6.  For a seed that is not zero, the mines grid that \<open>generate\<close> returns on a
  default-constructed generator depends on the parameters only: not on the seed stored in
  the generator, on the state of its random engine, on the use count or the flag of its
  perturbator, or on the random device.  Two calls with the same parameters that return,
  whatever the number of iterations they take, return the same grid or fail alike.
\<close>

theorem generate_deterministic:
  assumes "p_seed params \<noteq> 0"
    and "pt_builtin (m_perturbator gen1)" and "pt_builtin (m_perturbator gen2)"
  shows "returned_grid (generate R fuel drawn1 gen1 params) =
           returned_grid (generate R fuel drawn2 gen2 params) \<and>
         (\<forall>fuel1 fuel2.
            generate R fuel1 drawn1 gen1 params \<noteq> None \<and>
            generate R fuel2 drawn2 gen2 params \<noteq> None \<longrightarrow>
            returned_grid (generate R fuel1 drawn1 gen1 params) =
              returned_grid (generate R fuel2 drawn2 gen2 params))"
proof (intro conjI allI impI)
  show "returned_grid (generate R fuel drawn1 gen1 params) =
      returned_grid (generate R fuel drawn2 gen2 params)"
    by (rule generate_same_fuel [OF assms])
next
  fix fuel1 fuel2
  assume r: "generate R fuel1 drawn1 gen1 params \<noteq> None \<and>
      generate R fuel2 drawn2 gen2 params \<noteq> None"
  let ?k = "max fuel1 fuel2"
  have "generate R ?k drawn1 gen1 params = generate R fuel1 drawn1 gen1 params"
    using r by (intro generate_returns_mono) simp_all
  moreover have "generate R ?k drawn2 gen2 params = generate R fuel2 drawn2 gen2 params"
    using r by (intro generate_returns_mono) simp_all
  ultimately show "returned_grid (generate R fuel1 drawn1 gen1 params) =
      returned_grid (generate R fuel2 drawn2 gen2 params)"
    using generate_same_fuel [OF assms, of R ?k drawn1 drawn2] by simp
qed

text \<open>The generator on the small board: the mine is placed on the last square.\<close>

lemma generate_small:
  "generate rotating_random 10 0 fresh_generator small_params =
     ok (\<lparr>grid_width = 4, grid_height = 1, grid_data = [False, False, False, True]\<rparr>,
         \<lparr>m_seed = 0, m_rng = 8,
           m_perturbator = \<lparr>pt_use_count = 0, pt_builtin = True, pt_allow_big_perturbs = False\<rparr>\<rparr>)"
  by code_simp

theorem generate_deterministic_witness:
  "p_seed small_params \<noteq> 0 \<and> pt_builtin (m_perturbator fresh_generator) \<and>
   pt_builtin (m_perturbator used_generator) \<and>
   returned_grid (generate rotating_random 10 1 used_generator small_params) =
     ok \<lparr>grid_width = 4, grid_height = 1, grid_data = [False, False, False, True]\<rparr>"
proof -
  have h: "p_seed small_params \<noteq> 0" "pt_builtin (m_perturbator fresh_generator)"
    "pt_builtin (m_perturbator used_generator)"
    by (simp_all add: small_params_def fresh_generator_def used_generator_def)
  have "returned_grid (generate rotating_random 10 0 fresh_generator small_params) =
      returned_grid (generate rotating_random 10 1 used_generator small_params)"
    using generate_deterministic [OF h, of rotating_random 10 0 1] by blast
  then show ?thesis using h unfolding generate_small by (simp add: returned_grid_def)
qed

section \<open>Grids: positions and indices\<close>

lemma foldM_invariant:
  assumes "foldM f s xs = ok s'" "I s"
    "\<And>s a s'. I s \<Longrightarrow> a \<in> set xs \<Longrightarrow> f s a = ok s' \<Longrightarrow> I s'"
  shows "I s'"
  using assms
proof (induction xs arbitrary: s)
  case Nil
  then show ?case by simp
next
  case (Cons a as)
  from Cons.prems(1) obtain s1 where s1: "f s a = ok s1" "foldM f s1 as = ok s'"
    by (auto simp add: rbind_eq_ok)
  have "I s1" using Cons.prems(3) [OF Cons.prems(2) _ s1(1)] by simp
  show ?case
  proof (rule Cons.IH [OF s1(2) \<open>I s1\<close>])
    fix t b t' assume "I t" "b \<in> set as" "f t b = ok t'"
    thus "I t'" using Cons.prems(3) [of t b t'] by simp
  qed
qed

lemma in_cells [simp]: "(x, y) \<in> set (cells g) \<longleftrightarrow> contains g x y"
  by (fastforce simp add: cells_def contains_def)

lemma idx_div:
  assumes "0 < (w::int)" "0 \<le> x" "x < w"
  shows "(y * w + x) div w = y" "(y * w + x) mod w = x"
  using assms by simp_all

lemma idx_inj:
  assumes "0 < (w::int)" "0 \<le> x" "x < w" "0 \<le> x'" "x' < w" "y * w + x = y' * w + x'"
  shows "x = x' \<and> y = y'"
proof -
  have "y = (y * w + x) div w" using idx_div(1) [OF assms(1-3)] by simp
  also have "\<dots> = y'" unfolding assms(6) using idx_div(1) [OF assms(1) assms(4,5)] by simp
  finally have "y = y'" .
  thus ?thesis using assms(6) by simp
qed

lemma idx_range:
  assumes "grid_wf g" "contains g x y"
  shows "0 \<le> y * grid_width g + x" "y * grid_width g + x < grid_size g"
proof -
  let ?w = "grid_width g" and ?h = "grid_height g"
  from assms have w: "0 < ?w" and x: "0 \<le> x" "x < ?w" and y: "0 \<le> y" "y < ?h"
    and len: "grid_size g = ?w * ?h"
    by (simp_all add: grid_wf_def contains_def grid_size_def)
  show "0 \<le> y * ?w + x" using w x y by simp
  have "y * ?w + x < y * ?w + ?w" using x by simp
  also have "\<dots> = (y + 1) * ?w" by (simp add: algebra_simps)
  also have "\<dots> \<le> ?h * ?w" using y w by (intro mult_right_mono) simp_all
  finally show "y * ?w + x < grid_size g" using len by (simp add: mult.commute)
qed

lemma idx_nat_inj:
  assumes "grid_wf g" "contains g x y" "contains g x' y'"
    "nat (y * grid_width g + x) = nat (y' * grid_width g + x')"
  shows "x = x' \<and> y = y'"
proof -
  have "y * grid_width g + x = y' * grid_width g + x'"
    using idx_range(1) [OF assms(1,2)] idx_range(1) [OF assms(1,3)] assms(4) by simp
  thus ?thesis
    using assms(1-3) idx_inj [of "grid_width g" x x' y y']
    by (simp add: grid_wf_def contains_def)
qed

lemma at_cellv:
  assumes "grid_wf g" "contains g x y"
  shows "at g x y = ok (cellv g x y)"
  using idx_range [OF assms] by (simp add: at_def at_index_def cellv_def)

lemma get_pos_cellv:
  assumes "grid_wf g" "contains g x y"
  shows "get_pos g x y = ok (cellv g x y)"
  using idx_range [OF assms] by (simp add: get_pos_def get_index_def cellv_def)

lemma set_xy_gset:
  assumes "grid_wf g" "contains g x y"
  shows "set_xy g x y v = ok (gset g x y v)"
  using idx_range [OF assms] by (simp add: set_xy_def set_index_def gset_def)

lemma gset_geom [simp]:
  "grid_width (gset g x y v) = grid_width g" "grid_height (gset g x y v) = grid_height g"
  "length (grid_data (gset g x y v)) = length (grid_data g)"
  by (simp_all add: gset_def)

lemma gset_wf [simp]: "grid_wf (gset g x y v) \<longleftrightarrow> grid_wf g"
  by (simp add: grid_wf_def)

lemma gset_contains [simp]: "contains (gset g x y v) a b \<longleftrightarrow> contains g a b"
  by (simp add: contains_def)

lemma cellv_gset:
  assumes "grid_wf g" "contains g x y" "contains g x' y'"
  shows "cellv (gset g x y v) x' y' = (if x' = x \<and> y' = y then v else cellv g x' y')"
proof (cases "x' = x \<and> y' = y")
  case True
  then show ?thesis
    using idx_range [OF assms(1,2)] by (simp add: cellv_def gset_def grid_size_def)
next
  case False
  hence "nat (y' * grid_width g + x') \<noteq> nat (y * grid_width g + x)"
    using idx_nat_inj [OF assms(1) assms(3) assms(2)] by blast
  then show ?thesis using False by (auto simp add: cellv_def gset_def)
qed

lemma gset_same: "gset g x y (cellv g x y) = g"
  by (simp add: gset_def cellv_def)

lemma tmod_tdiv_nonneg:
  assumes "0 \<le> i" "0 < w"
  shows "tmod i w = i mod w" "tdiv i w = i div w"
  using assms by (simp_all add: tmod_def tdiv_def sgn_if)

lemma idx2pt_in_range:
  assumes "grid_wf g" "0 \<le> i" "i < grid_size g"
  shows "idx2pt g i = ok (i mod grid_width g, i div grid_width g)"
    "contains g (i mod grid_width g) (i div grid_width g)"
    "(i div grid_width g) * grid_width g + i mod grid_width g = i"
proof -
  let ?w = "grid_width g"
  from assms have w: "0 < ?w" and len: "i < ?w * grid_height g"
    by (simp_all add: grid_wf_def grid_size_def)
  show "idx2pt g i = ok (i mod ?w, i div ?w)"
    using w assms(2) by (simp add: idx2pt_def tmod_tdiv_nonneg)
  have "\<not> grid_height g \<le> i div ?w"
  proof
    assume "grid_height g \<le> i div ?w"
    hence "?w * grid_height g \<le> ?w * (i div ?w)" using w by (simp add: mult_left_mono)
    also have "\<dots> \<le> i" using pos_mod_sign [OF w, of i] mult_div_mod_eq [of ?w i] by linarith
    finally show False using len by simp
  qed
  hence "i div ?w < grid_height g" by simp
  moreover have "0 \<le> i div ?w" using assms(2) w by (simp add: pos_imp_zdiv_nonneg_iff)
  ultimately show "contains g (i mod ?w) (i div ?w)"
    using w by (simp add: contains_def)
  show "(i div ?w) * ?w + i mod ?w = i" by simp
qed

lemma in_indices [simp]: "i \<in> set (indices g) \<longleftrightarrow> 0 \<le> i \<and> i < grid_size g"
  by (auto simp add: indices_def grid_size_def image_iff intro: bexI [of _ "nat i"])

section \<open>The solver and the perturbator keep the shape of the game and the number of mines\<close>

lemma same_shape_refl [simp]: "same_shape g g"
  by (simp add: same_shape_def)

lemma same_shape_trans: "same_shape a b \<Longrightarrow> same_shape b c \<Longrightarrow> same_shape a c"
  by (simp add: same_shape_def)

lemma preserved_refl [simp]: "preserved game game"
  by (simp add: preserved_def)

lemma preserved_trans: "preserved a b \<Longrightarrow> preserved b c \<Longrightarrow> preserved a c"
  by (auto simp add: preserved_def intro: same_shape_trans)

lemma set_index_shape: "set_index g i v = ok g' \<Longrightarrow> same_shape g g'"
  by (auto simp add: set_index_def same_shape_def split: if_splits)

lemma set_xy_shape: "set_xy g x y v = ok g' \<Longrightarrow> same_shape g g'"
  unfolding set_xy_def by (rule set_index_shape)

lemma preserved_grid:
  "same_shape (gd_grid game) g \<Longrightarrow> preserved game (game\<lparr>gd_grid := g\<rparr>)"
  by (simp add: preserved_def)

lemma count_list_update:
  "i < length xs \<Longrightarrow>
     int (count_list (xs[i := v]) a) =
       int (count_list xs a) - (if xs ! i = a then 1 else 0) + (if v = a then 1 else 0)"
proof (induction xs arbitrary: i)
  case Nil
  then show ?case by simp
next
  case (Cons x xs)
  show ?case
  proof (cases i)
    case 0
    then show ?thesis by simp
  next
    case (Suc j)
    hence "j < length xs" using Cons.prems by simp
    from Cons.IH [OF this] show ?thesis unfolding Suc by (auto split: if_splits)
  qed
qed

lemma mark_known_squares_preserved:
  assumes "mark_known_squares game std x y m mine = ok (game', std')"
  shows "preserved game game' \<and> gd_mines game' = gd_mines game"
proof -
  let ?I = "\<lambda>s :: GameData \<times> int list. preserved game (fst s) \<and> gd_mines (fst s) = gd_mines game"
  have "?I (game', std')"
    using assms unfolding mark_known_squares_def
    by (rule foldM_invariant [where I = ?I])
      (auto simp add: rbind_eq_ok split: if_splits dest!: set_xy_shape
        intro: preserved_trans [OF _ preserved_grid])
  thus ?thesis by simp
qed

lemma assert_eq_ok: "assert c m = ok v \<longleftrightarrow> c \<and> m = ok v"
  by (simp add: assert_def)

lemma apply_change_total:
  assumes "apply_change (g, mines) p = ok (g', mines')"
  shows "same_shape g g'" "same_shape mines mines'"
    "mine_total mines' = mine_total mines + delta_int (pb_delta p)"
proof -
  let ?x = "pb_x p" and ?y = "pb_y p" and ?d = "pb_delta p"
  from assms obtain mine where m: "at mines ?x ?y = ok mine"
    and c: "(?d = Cleared) \<noteq> (mine = False)"
    and s: "set_xy mines ?x ?y (?d = ChangedToMine) = ok mines'"
    and f: "foldM (\<lambda>g (dx, dy).
                  if contains g (?x + dx) (?y + dy) then
                    rbind (at g (?x + dx) (?y + dy)) (\<lambda>v.
                      if v \<noteq> Unknown then
                        (if dx = 0 \<and> dy = 0 then
                           (if ?d = ChangedToMine then set_xy g ?x ?y MarkedAsMine
                            else rbind (count_mines_around g mines' ?x ?y) (\<lambda>minecount.
                                   set_xy g ?x ?y minecount))
                         else if v \<ge> Mine0 then set_xy g (?x + dx) (?y + dy) (v + delta_int ?d)
                         else ok g)
                      else ok g)
                  else ok g)
                g neighbour_offsets = ok g'"
    unfolding apply_change_def Let_def fst_conv snd_conv
    by (auto simp add: rbind_eq_ok assert_eq_ok)
  show "same_shape g g'"
    using f
    by (rule foldM_invariant [where I = "same_shape g"])
      (auto simp add: rbind_eq_ok split: if_splits dest!: set_xy_shape intro: same_shape_trans)
  show "same_shape mines mines'" using s by (rule set_xy_shape)
  let ?i = "?y * grid_width mines + ?x"
  from m have i: "0 \<le> ?i" "?i < grid_size mines" and mv: "mine = grid_data mines ! nat ?i"
    by (auto simp add: at_def at_index_def split: if_splits)
  from s i have m': "mines' = mines\<lparr>grid_data := (grid_data mines)[nat ?i := (?d = ChangedToMine)]\<rparr>"
    by (auto simp add: set_xy_def set_index_def)
  have lt: "nat ?i < length (grid_data mines)" using i by (simp add: grid_size_def)
  show "mine_total mines' = mine_total mines + delta_int ?d"
    unfolding m' mine_total_def using count_list_update [OF lt, of "?d = ChangedToMine" True] c mv
    by (cases ?d) (auto simp add: delta_int_def)
qed

lemma apply_changes_total:
  assumes "apply_changes g mines ps = ok (g', mines')"
  shows "same_shape g g' \<and> same_shape mines mines' \<and>
    mine_total mines' = mine_total mines + sum_list (map (\<lambda>p. delta_int (pb_delta p)) ps)"
  using assms unfolding apply_changes_def
proof (induction ps arbitrary: g mines)
  case Nil
  then show ?case by simp
next
  case (Cons p ps)
  from Cons.prems obtain g1 m1 where a: "apply_change (g, mines) p = ok (g1, m1)"
    and r: "foldM apply_change (g1, m1) ps = ok (g', mines')"
    by (auto simp add: rbind_eq_ok)
  from apply_change_total [OF a] Cons.IH [OF r] show ?case
    by (auto intro: same_shape_trans)
qed


lemma input_set_changes_delta:
  assumes "input_set_changes ctx setx sety m change filllist = ok ret"
  shows "\<forall>p \<in> set ret. pb_delta p = change"
proof -
  let ?I = "\<lambda>ret :: Perturbation list. \<forall>p \<in> set ret. pb_delta p = change"
  consider (a) "filllist \<noteq> []" | (b) "filllist = []" "m \<noteq> 0" | (c) "filllist = []" "m = 0"
    by blast
  then show ?thesis
  proof cases
    case a
    with assms have "foldM (\<lambda>ret i.
             rbind (idx2pt (gd_grid ctx) i) (\<lambda>(x, y).
               ok (ret @ [\<lparr>pb_x = x, pb_y = y, pb_delta = change\<rparr>])))
           [] filllist = ok ret"
      by (auto simp add: input_set_changes_def assert_eq_ok)
    then show ?thesis
      by (rule foldM_invariant [where I = ?I]) (auto simp add: rbind_eq_ok)
  next
    case b
    with assms have "foldM (\<lambda>ret (dx, dy).
           if m AND pt2mf dx dy \<noteq> 0 then
             rbind (at (gd_mines ctx) (setx + dx) (sety + dy)) (\<lambda>mine.
               if change = change_for mine
               then ok (ret @ [\<lparr>pb_x = setx + dx, pb_y = sety + dy, pb_delta = change\<rparr>])
               else ok ret)
           else ok ret)
         [] window_offsets = ok ret"
      by (simp add: input_set_changes_def)
    then show ?thesis
      by (rule foldM_invariant [where I = ?I]) (auto simp add: rbind_eq_ok split: if_splits)
  next
    case c
    with assms have "foldM (\<lambda>ret i.
           rbind (at_index (gd_grid ctx) i) (\<lambda>v.
             if v = Unknown then
               rbind (at_index (gd_mines ctx) i) (\<lambda>mine.
                 if change = change_for mine
                 then rbind (idx2pt (gd_grid ctx) i) (\<lambda>(x, y).
                        ok (ret @ [\<lparr>pb_x = x, pb_y = y, pb_delta = change\<rparr>]))
                 else ok ret)
             else ok ret))
         [] (indices (gd_grid ctx)) = ok ret"
      by (simp add: input_set_changes_def)
    then show ?thesis
      by (rule foldM_invariant [where I = ?I]) (auto simp add: rbind_eq_ok split: if_splits)
  qed
qed

lemma sum_list_const:
  "\<forall>p \<in> set ps. f p = (c::int) \<Longrightarrow> sum_list (map f ps) = int (length ps) * c"
  by (induction ps) (simp_all add: algebra_simps)

text \<open>
  What a call of \<open>mineperturb\<close> that returns has done: the list of changes is made of
  \<open>k\<close> changes of one kind outside the input set and \<open>k\<close> changes of the other kind
  inside it, none of them near the start, and the game is the one after these changes.
\<close>

lemma mineperturb_cases:
  assumes "mineperturb R ctx setx sety m rng big = ok (ret, ctx', rng')"
  shows "(ret = [] \<and> ctx' = ctx) \<or>
    (\<exists>ret1 ret2 change g mines.
       ret = ret1 @ ret2 \<and> length ret2 = length ret1 \<and>
       (\<forall>p \<in> set ret1. pb_delta p = change) \<and>
       (\<forall>p \<in> set ret2. pb_delta p = opposite change) \<and>
       (\<forall>p \<in> set ret. \<not> near_start ctx p) \<and>
       apply_changes (gd_grid ctx) (gd_mines ctx) ret = ok (g, mines) \<and>
       ctx' = ctx\<lparr>gd_grid := g, gd_mines := mines\<rparr>)"
proof (cases "m = 0 \<and> \<not> big")
  case True
  then show ?thesis using assms by (simp add: mineperturb_def)
next
  case False
  from assms False obtain nfull and tofill toempty :: "PerturbSquare list"
    and filllist ret2 g mines where
    isc: "input_set_changes ctx setx sety m
            (opposite (if length tofill = nfull then ChangedToMine else Cleared)) filllist = ok ret2"
    and len: "length (map (\<lambda>sq. \<lparr>pb_x = sq_x sq, pb_y = sq_y sq,
                  pb_delta = (if length tofill = nfull then ChangedToMine else Cleared)\<rparr>)
                (if length tofill = nfull then tofill else toempty) @ ret2) =
              2 * length (if length tofill = nfull then tofill else toempty)"
    and ns: "\<not> list_ex (near_start ctx)
              (map (\<lambda>sq. \<lparr>pb_x = sq_x sq, pb_y = sq_y sq,
                  pb_delta = (if length tofill = nfull then ChangedToMine else Cleared)\<rparr>)
                (if length tofill = nfull then tofill else toempty) @ ret2)"
    and ac: "apply_changes (gd_grid ctx) (gd_mines ctx)
              (map (\<lambda>sq. \<lparr>pb_x = sq_x sq, pb_y = sq_y sq,
                  pb_delta = (if length tofill = nfull then ChangedToMine else Cleared)\<rparr>)
                (if length tofill = nfull then tofill else toempty) @ ret2) = ok (g, mines)"
    and ret: "ret = map (\<lambda>sq. \<lparr>pb_x = sq_x sq, pb_y = sq_y sq,
                  pb_delta = (if length tofill = nfull then ChangedToMine else Cleared)\<rparr>)
                (if length tofill = nfull then tofill else toempty) @ ret2"
    and ctx': "ctx' = ctx\<lparr>gd_grid := g, gd_mines := mines\<rparr>"
    unfolding mineperturb_def Let_def
    by (clarsimp simp add: rbind_eq_ok assert_eq_ok
          simp del: list_ex_append map_append length_map length_append)
  define change where "change = (if length tofill = nfull then ChangedToMine else Cleared)"
  define todo where "todo = (if length tofill = nfull then tofill else toempty)"
  define ret1 where "ret1 = map (\<lambda>sq. \<lparr>pb_x = sq_x sq, pb_y = sq_y sq, pb_delta = change\<rparr>) todo"
  have r: "ret = ret1 @ ret2" using ret by (simp add: ret1_def todo_def change_def)
  have l: "length ret2 = length ret1" using len by (simp add: ret1_def todo_def)
  have d1: "\<forall>p \<in> set ret1. pb_delta p = change" by (simp add: ret1_def)
  have d2: "\<forall>p \<in> set ret2. pb_delta p = opposite change"
    by (rule input_set_changes_delta [OF isc [folded change_def]])
  have n: "\<forall>p \<in> set ret. \<not> near_start ctx p"
    using ns unfolding ret [symmetric] by (simp add: list_ex_iff)
  have ac': "apply_changes (gd_grid ctx) (gd_mines ctx) ret = ok (g, mines)"
    using ac unfolding ret [symmetric] .
  show ?thesis using r l d1 d2 n ac' ctx' by blast
qed

lemma delta_opposite: "delta_int (opposite c) = - delta_int c"
  by (cases c) (simp_all add: opposite_def delta_int_def)

lemma mineperturb_preserved:
  assumes "mineperturb R ctx setx sety m rng big = ok (ret, ctx', rng')"
  shows "preserved ctx ctx'"
  using mineperturb_cases [OF assms]
proof (elim disjE exE conjE)
  assume "ctx' = ctx"
  thus ?thesis by simp
next
  fix ret1 ret2 change g mines
  assume a: "ret = ret1 @ ret2" "length ret2 = length ret1"
    "\<forall>p \<in> set ret1. pb_delta p = change" "\<forall>p \<in> set ret2. pb_delta p = opposite change"
    "apply_changes (gd_grid ctx) (gd_mines ctx) ret = ok (g, mines)"
    "ctx' = ctx\<lparr>gd_grid := g, gd_mines := mines\<rparr>"
  have s1: "sum_list (map (\<lambda>p. delta_int (pb_delta p)) ret1) = int (length ret1) * delta_int change"
    using a(3) by (intro sum_list_const) simp
  have s2: "sum_list (map (\<lambda>p. delta_int (pb_delta p)) ret2) =
      int (length ret2) * (- delta_int change)"
    using a(4) by (intro sum_list_const) (simp add: delta_opposite)
  have "sum_list (map (\<lambda>p. delta_int (pb_delta p)) ret) = 0"
    unfolding a(1) using s1 s2 a(2) by simp
  with apply_changes_total [OF a(5)] show ?thesis by (simp add: preserved_def a(6))
qed


lemma process_next_todo_preserved:
  assumes "process_next_todo s game stodo ss = ok (game', stodo', ss')"
  shows "preserved game game' \<and> gd_mines game' = gd_mines game"
proof (cases "el_mines s = 0 \<or> el_mines s = count (ss_mask (el_set s))")
  case True
  with assms show ?thesis
    by (auto simp add: process_next_todo_def rbind_eq_ok dest!: mark_known_squares_preserved)
next
  case False
  let ?I = "\<lambda>t :: GameData \<times> int list \<times> SetStore.
      preserved game (fst t) \<and> gd_mines (fst t) = gd_mines game"
  note f = assms [unfolded process_next_todo_def if_not_P [OF False]]
  have "?I (game', stodo', ss')"
    using f
    by (rule foldM_invariant [where I = ?I])
      (auto simp add: rbind_eq_ok assert_eq_ok Let_def split: if_splits
        dest!: mark_known_squares_preserved
        intro: preserved_trans preserved_trans [OF preserved_trans])
  thus ?thesis by simp
qed

lemma mark_known_square_preserved:
  assumes "mark_known_square game std x y mine = ok (game', std')"
  shows "preserved game game' \<and> gd_mines game' = gd_mines game"
  using assms unfolding mark_known_square_def by (rule mark_known_squares_preserved)

lemma attempt_global_deduction_preserved:
  assumes "attempt_global_deduction fuel n squaresleft minesleft game stodo ss = ok (b, game', stodo')"
  shows "preserved game game' \<and> gd_mines game' = gd_mines game"
proof -
  let ?I = "\<lambda>t :: GameData \<times> int list.
      preserved game (fst t) \<and> gd_mines (fst t) = gd_mines game"
  show ?thesis
  proof (cases "minesleft = 0 \<or> minesleft = squaresleft")
    case True
    with assms obtain t where f: "foldM (\<lambda>(game, stodo) i.
                 rbind (get_index (gd_grid game) i) (\<lambda>v.
                   if v = Unknown then
                     rbind (idx2pt (gd_grid game) i) (\<lambda>(x, y).
                       mark_known_square game stodo x y (minesleft \<noteq> 0))
                   else ok (game, stodo)))
               (game, stodo) (indices (gd_grid game)) = ok t" and t: "fst t = game'"
      unfolding attempt_global_deduction_def by (auto simp add: rbind_eq_ok)
    have "?I t"
      using f
      by (rule foldM_invariant [where I = ?I])
        (auto simp add: rbind_eq_ok split: if_splits dest!: mark_known_square_preserved
          intro: preserved_trans)
    thus ?thesis using t by simp
  next
    case False
    show ?thesis
    proof (cases "setstore_size ss > 10")
      case True
      with assms False show ?thesis by (simp add: attempt_global_deduction_def Let_def)
    next
      case big: False
      from assms False big obtain r where
        r: "gd_search fuel (ss_elements ss) 0 (replicate 10 False) minesleft squaresleft = ok r"
        and c: "(case r of
              None \<Rightarrow> ok (False, game, stodo)
            | Some (setused, minesleft') \<Rightarrow>
                rbind (foldM (\<lambda>(game, stodo) i.
                         rbind (get_index (gd_grid game) i) (\<lambda>v.
                           if v = Unknown then
                             rbind (idx2pt (gd_grid game) i) (\<lambda>(x, y).
                               if outside_union (ss_elements ss) setused x y
                               then mark_known_square game stodo x y (minesleft' \<noteq> 0)
                               else ok (game, stodo))
                           else ok (game, stodo)))
                       (game, stodo) (indices (gd_grid game)))
                  (\<lambda>(game, stodo). ok (True, game, stodo))) = ok (b, game', stodo')"
        unfolding attempt_global_deduction_def Let_def by (auto simp add: rbind_eq_ok)
      show ?thesis
      proof (cases r)
        case None
        with c show ?thesis by simp
      next
        case (Some p)
        obtain setused minesleft' where p: "p = (setused, minesleft')" by (cases p)
        from c obtain t where f: "foldM (\<lambda>(game, stodo) i.
                         rbind (get_index (gd_grid game) i) (\<lambda>v.
                           if v = Unknown then
                             rbind (idx2pt (gd_grid game) i) (\<lambda>(x, y).
                               if outside_union (ss_elements ss) setused x y
                               then mark_known_square game stodo x y (minesleft' \<noteq> 0)
                               else ok (game, stodo))
                           else ok (game, stodo)))
                       (game, stodo) (indices (gd_grid game)) = ok t" and t: "fst t = game'"
          unfolding Some p by (auto simp add: rbind_eq_ok)
        have "?I t"
          using f
          by (rule foldM_invariant [where I = ?I])
            (auto simp add: rbind_eq_ok split: if_splits dest!: mark_known_square_preserved
              intro: preserved_trans)
        thus ?thesis using t by simp
      qed
    qed
  qed
qed


lemma perturb_store_result:
  assumes "perturb_store R pt rng game ss = ok (ps, pt', rng', game')"
  shows "preserved game game'" "pt' = pt\<lparr>pt_use_count := pt_use_count pt + 1\<rparr>"
proof -
  from assms obtain x y m r where
    "mineperturb R game x y m r
       (pt_builtin (pt\<lparr>pt_use_count := pt_use_count pt + 1\<rparr>) \<and>
        pt_allow_big_perturbs (pt\<lparr>pt_use_count := pt_use_count pt + 1\<rparr>)) = ok (ps, game', rng')"
    and p: "pt' = pt\<lparr>pt_use_count := pt_use_count pt + 1\<rparr>"
    unfolding perturb_store_def perturb_def do_perturb_def Let_def
    by (auto simp add: rbind_eq_ok split: if_splits prod.splits)
  thus "preserved game game'" by (auto dest: mineperturb_preserved)
  show "pt' = pt\<lparr>pt_use_count := pt_use_count pt + 1\<rparr>" by (rule p)
qed

lemma perturb_grid_result:
  assumes "perturb_grid R pt rng game stodo ss = ok (b, pt', rng', game', stodo', ss')"
  shows "preserved game game'" "pt' = pt\<lparr>pt_use_count := pt_use_count pt + 1\<rparr>"
  using assms unfolding perturb_grid_def
  by (auto simp add: rbind_eq_ok split: if_splits dest: perturb_store_result)

lemma solve_loop_preserved:
  "solve_loop R fuel n hp pt rng game stodo ss = ok (pt', rng', game') \<Longrightarrow>
     preserved game game' \<and> pt_use_count pt \<le> pt_use_count pt' \<and>
     pt_builtin pt' = pt_builtin pt \<and> (\<not> hp \<longrightarrow> gd_mines game' = gd_mines game)"
proof (induction fuel arbitrary: hp pt rng game stodo ss)
  case 0
  then show ?case by simp
next
  case (Suc fuel)
  from Suc.prems obtain ss1 todo ss2 where
    n: "next_todo ss1 = ok (todo, ss2)" and
    c: "(case todo of
         Some s \<Rightarrow>
           rbind (process_next_todo s game [] ss2) (\<lambda>(game', stodo', ss').
             solve_loop R fuel n hp pt rng game' stodo' ss')
       | None \<Rightarrow>
           let squaresleft = int (count_list (grid_data (gd_grid game)) Unknown);
               minesleft = n - int (count_list (grid_data (gd_grid game)) MarkedAsMine)
           in
           if squaresleft = 0 then assert (minesleft = 0) (ok (pt, rng, game))
           else
             rbind (if n \<ge> 0
                    then attempt_global_deduction fuel n squaresleft minesleft game [] ss2
                    else ok (False, game, [])) (\<lambda>(success, game', stodo').
               if success then solve_loop R fuel n hp pt rng game' stodo' ss2
               else if hp then
                 rbind (perturb_grid R pt rng game' stodo' ss2)
                   (\<lambda>(success', pt', rng', game'', stodo'', ss'').
                     if success'
                     then solve_loop R fuel n hp pt' rng' game'' stodo'' ss''
                     else ok (pt', rng', game''))
               else ok (pt, rng, game'))) = ok (pt', rng', game')"
    by (auto simp add: rbind_eq_ok)
  show ?case
  proof (cases todo)
    case (Some s)
    with c obtain g1 st1 s1 where a: "process_next_todo s game [] ss2 = ok (g1, st1, s1)"
      and b: "solve_loop R fuel n hp pt rng g1 st1 s1 = ok (pt', rng', game')"
      by (auto simp add: rbind_eq_ok)
    from process_next_todo_preserved [OF a] Suc.IH [OF b] show ?thesis
      by (auto intro: preserved_trans)
  next
    case None
    show ?thesis
    proof (cases "count_list (grid_data (gd_grid game)) Unknown = 0")
      case True
      with c None show ?thesis by (simp add: assert_eq_ok)
    next
      case False
      with c None obtain success g1 st1 where
        a: "(if n \<ge> 0
             then attempt_global_deduction fuel n
                    (int (count_list (grid_data (gd_grid game)) Unknown))
                    (n - int (count_list (grid_data (gd_grid game)) MarkedAsMine)) game [] ss2
             else ok (False, game, [])) = ok (success, g1, st1)" and
        b: "(if success then solve_loop R fuel n hp pt rng g1 st1 ss2
             else if hp then
                 rbind (perturb_grid R pt rng g1 st1 ss2)
                   (\<lambda>(success', pt', rng', game'', stodo'', ss'').
                     if success'
                     then solve_loop R fuel n hp pt' rng' game'' stodo'' ss''
                     else ok (pt', rng', game''))
               else ok (pt, rng, g1)) = ok (pt', rng', game')"
        by (auto simp add: rbind_eq_ok Let_def)
      from a have g1: "preserved game g1 \<and> gd_mines g1 = gd_mines game"
        by (auto split: if_splits dest: attempt_global_deduction_preserved)
      show ?thesis
      proof (cases success)
        case True
        with b have "solve_loop R fuel n hp pt rng g1 st1 ss2 = ok (pt', rng', game')" by simp
        from Suc.IH [OF this] g1 show ?thesis by (auto intro: preserved_trans)
      next
        case ns: False
        show ?thesis
        proof (cases hp)
          case False
          with b ns g1 show ?thesis by simp
        next
          case True
          with b ns obtain s' p1 r1 g2 st2 s2 where
            p: "perturb_grid R pt rng g1 st1 ss2 = ok (s', p1, r1, g2, st2, s2)" and
            q: "(if s' then solve_loop R fuel n hp p1 r1 g2 st2 s2 else ok (p1, r1, g2)) =
                ok (pt', rng', game')"
            by (auto simp add: rbind_eq_ok)
          note pr = perturb_grid_result [OF p]
          show ?thesis
          proof (cases s')
            case True
            with q have "solve_loop R fuel n hp p1 r1 g2 st2 s2 = ok (pt', rng', game')" by simp
            from Suc.IH [OF this] g1 pr True \<open>hp\<close> show ?thesis
              by (auto intro: preserved_trans preserved_trans [OF preserved_trans])
          next
            case False
            with q g1 pr \<open>hp\<close> show ?thesis by (auto intro: preserved_trans)
          qed
        qed
      qed
    qed
  qed
qed


text \<open>
  A run of the solver with a perturbator that ends with the use count it started with has
  never called the perturbator: the solver without perturbator does the same.
\<close>

lemma solve_loop_without_perturbator:
  "solve_loop R fuel n True pt rng game stodo ss = ok (pt', rng', game') \<Longrightarrow>
   pt_use_count pt' = pt_use_count pt \<Longrightarrow>
   solve_loop R fuel n False pt0 rng0 game stodo ss = ok (pt0, rng0, game')"
proof (induction fuel arbitrary: game stodo ss)
  case 0
  then show ?case by simp
next
  case (Suc fuel)
  from Suc.prems(1) obtain ss1 todo ss2 where
    pn: "process_newly_known_squares stodo (gd_grid game) ss = ok ss1" and
    n: "next_todo ss1 = ok (todo, ss2)" and
    c: "(case todo of
         Some s \<Rightarrow>
           rbind (process_next_todo s game [] ss2) (\<lambda>(game', stodo', ss').
             solve_loop R fuel n True pt rng game' stodo' ss')
       | None \<Rightarrow>
           let squaresleft = int (count_list (grid_data (gd_grid game)) Unknown);
               minesleft = n - int (count_list (grid_data (gd_grid game)) MarkedAsMine)
           in
           if squaresleft = 0 then assert (minesleft = 0) (ok (pt, rng, game))
           else
             rbind (if n \<ge> 0
                    then attempt_global_deduction fuel n squaresleft minesleft game [] ss2
                    else ok (False, game, [])) (\<lambda>(success, game', stodo').
               if success then solve_loop R fuel n True pt rng game' stodo' ss2
               else if True then
                 rbind (perturb_grid R pt rng game' stodo' ss2)
                   (\<lambda>(success', pt', rng', game'', stodo'', ss'').
                     if success'
                     then solve_loop R fuel n True pt' rng' game'' stodo'' ss''
                     else ok (pt', rng', game''))
               else ok (pt, rng, game'))) = ok (pt', rng', game')"
    by (auto simp add: rbind_eq_ok)
  show ?case
  proof (cases todo)
    case (Some s)
    with c obtain g1 st1 s1 where a: "process_next_todo s game [] ss2 = ok (g1, st1, s1)"
      and b: "solve_loop R fuel n True pt rng g1 st1 s1 = ok (pt', rng', game')"
      by (auto simp add: rbind_eq_ok)
    from Suc.IH [OF b Suc.prems(2)] show ?thesis by (simp add: pn n Some a)
  next
    case None
    show ?thesis
    proof (cases "count_list (grid_data (gd_grid game)) Unknown = 0")
      case True
      with c None have e: "game' = game"
        "n - int (count_list (grid_data (gd_grid game)) MarkedAsMine) = 0"
        by (auto simp add: assert_eq_ok Let_def)
      show ?thesis unfolding e(1) using e(2) True
        by (simp add: pn n None assert_eq_ok Let_def)
    next
      case False
      with c None obtain success g1 st1 where
        a: "(if n \<ge> 0
             then attempt_global_deduction fuel n
                    (int (count_list (grid_data (gd_grid game)) Unknown))
                    (n - int (count_list (grid_data (gd_grid game)) MarkedAsMine)) game [] ss2
             else ok (False, game, [])) = ok (success, g1, st1)" and
        b: "(if success then solve_loop R fuel n True pt rng g1 st1 ss2
             else if True then
                 rbind (perturb_grid R pt rng g1 st1 ss2)
                   (\<lambda>(success', pt', rng', game'', stodo'', ss'').
                     if success'
                     then solve_loop R fuel n True pt' rng' game'' stodo'' ss''
                     else ok (pt', rng', game''))
             else ok (pt, rng, g1)) = ok (pt', rng', game')"
        by (auto simp add: rbind_eq_ok Let_def)
      show ?thesis
      proof (cases success)
        case True
        with b have "solve_loop R fuel n True pt rng g1 st1 ss2 = ok (pt', rng', game')" by simp
        from Suc.IH [OF this Suc.prems(2)] show ?thesis
          using False True a by (simp add: pn n None Let_def)
      next
        case ns: False
        with b obtain s' p1 r1 g2 st2 s2 where
          p: "perturb_grid R pt rng g1 st1 ss2 = ok (s', p1, r1, g2, st2, s2)" and
          q: "(if s' then solve_loop R fuel n True p1 r1 g2 st2 s2 else ok (p1, r1, g2)) =
              ok (pt', rng', game')"
          by (auto simp add: rbind_eq_ok)
        have "pt_use_count pt + 1 \<le> pt_use_count pt'"
          using q perturb_grid_result(2) [OF p] solve_loop_preserved [of R fuel n True p1 r1 g2 st2 s2 pt' rng' game']
          by (auto split: if_splits)
        with Suc.prems(2) show ?thesis by simp
      qed
    qed
  qed
qed

lemma solve_without_perturbator:
  assumes "solve R fuel True pt rng game = ok (b, pt', rng', game')"
    "pt_use_count pt' = pt_use_count pt"
  shows "solve R fuel False pt0 rng0 game = ok (b, pt0, rng0, game')"
proof -
  from assms(1) obtain stodo where
    t: "build_square_todolist (gd_grid game) = ok stodo" and
    l: "solve_loop R fuel (int (count_list (grid_data (gd_mines game)) True)) True pt rng game
          stodo SetStore_empty = ok (pt', rng', game')" and
    b: "b = (Unknown \<notin> set (grid_data (gd_grid game')))"
    unfolding solve_def Let_def by (auto simp add: rbind_eq_ok)
  from solve_loop_without_perturbator [OF l assms(2), of pt0 rng0] show ?thesis
    unfolding solve_def Let_def by (simp add: t b)
qed

lemma solve_preserved:
  assumes "solve R fuel hp pt rng game = ok (b, pt', rng', game')"
  shows "preserved game game'" "pt_use_count pt \<le> pt_use_count pt'"
    "pt_builtin pt' = pt_builtin pt" "\<not> hp \<Longrightarrow> gd_mines game' = gd_mines game"
    "b \<longleftrightarrow> Unknown \<notin> set (grid_data (gd_grid game'))"
  using assms unfolding solve_def Let_def
  by (auto simp add: rbind_eq_ok dest: solve_loop_preserved)


lemma start_of_shape: "same_shape g g' \<Longrightarrow> start_of g' x y = start_of g x y"
  by (cases g, cases g') (simp add: same_shape_def start_of_def)

lemma start_of_Grid_new: "Grid_new w h Unknown = ok g \<Longrightarrow> start_of g x y = start_grid w h x y"
  by (auto simp add: Grid_new_def start_of_def start_grid_def split: if_splits)

lemma mineLookup_mines:
  assumes "gd_mines a = gd_mines b"
  shows "mineLookup a x y = mineLookup b x y"
  unfolding mineLookup_def assms by (rule refl)

lemma solve_attempts_accept:
  "solve_attempts R fuel ntries x y nb game pt rng = ok (True, game', pt', rng') \<Longrightarrow>
   preserved game game' \<and> mineLookup game' x y = ok Mine0 \<and>
   (\<exists>k. solve R k False pt0 rng0 (game'\<lparr>gd_grid := start_of (gd_grid game) x y\<rparr>) =
      ok (True, pt0, rng0, game'))"
proof (induction fuel arbitrary: nb game pt rng)
  case 0
  then show ?case by simp
next
  case (Suc fuel)
  define g0 where "g0 = (gd_grid game)\<lparr>grid_data := replicate (length (grid_data (gd_grid game))) Unknown\<rparr>"
  from Suc.prems obtain v g1 solved p2 r2 g2 where
    ml: "mineLookup (game\<lparr>gd_grid := g0\<rparr>) x y = ok v" and
    s: "set_xy g0 x y v = ok g1" and a: "at g1 x y = ok Mine0" and
    sv: "solve R fuel True (reset ntries pt) rng (game\<lparr>gd_grid := g1\<rparr>) = ok (solved, p2, r2, g2)" and
    c: "(if \<not> solved \<or> (nb \<ge> 0 \<and> pt_use_count p2 \<ge> nb)
               then ok (False, g2, p2, r2)
               else if pt_use_count p2 = 0 then ok (True, g2, p2, r2)
               else solve_attempts R fuel ntries x y (pt_use_count p2) g2 p2 r2) =
        ok (True, game', pt', rng')"
    unfolding solve_attempts.simps Let_def g0_def [symmetric]
    by (auto simp add: rbind_eq_ok assert_eq_ok)
  have g1: "g1 = start_of (gd_grid game) x y"
    using s a unfolding g0_def
    by (auto simp add: set_xy_def set_index_def at_def at_index_def start_of_def grid_size_def
        split: if_splits)
  have "same_shape (gd_grid game) g1"
    using set_xy_shape [OF s] by (simp add: g0_def same_shape_def)
  hence pr: "preserved game g2"
    using solve_preserved(1) [OF sv] by (simp add: preserved_def same_shape_def)
  from c have ok: "solved" "\<not> (nb \<ge> 0 \<and> pt_use_count p2 \<ge> nb)"
    by (auto split: if_splits)
  show ?case
  proof (cases "pt_use_count p2 = 0")
    case True
    with c ok have e: "game' = g2" by (auto split: if_splits)
    have "pt_use_count p2 = pt_use_count (reset ntries pt)" using True by (simp add: reset_def)
    from solve_without_perturbator [OF sv this, of pt0 rng0]
    have f: "solve R fuel False pt0 rng0 (game\<lparr>gd_grid := g1\<rparr>) = ok (solved, pt0, rng0, g2)" .
    have "gd_mines g2 = gd_mines game" using solve_preserved(4) [OF f] by simp
    hence "g2\<lparr>gd_grid := g1\<rparr> = game\<lparr>gd_grid := g1\<rparr>"
      using pr by (cases g2, cases game) (simp add: preserved_def)
    moreover have "v = Mine0"
      using s a by (auto simp add: set_xy_def set_index_def at_def at_index_def grid_size_def
          split: if_splits)
    hence "mineLookup g2 x y = ok Mine0"
      using ml \<open>gd_mines g2 = gd_mines game\<close>
        mineLookup_mines [of g2 "game\<lparr>gd_grid := g0\<rparr>" x y] by simp
    ultimately show ?thesis using f ok(1) pr unfolding e g1 by auto
  next
    case False
    with c ok have "solve_attempts R fuel ntries x y (pt_use_count p2) g2 p2 r2 =
        ok (True, game', pt', rng')" by (auto split: if_splits)
    from Suc.IH [OF this] obtain k where i: "preserved g2 game'"
      "mineLookup game' x y = ok Mine0"
      "solve R k False pt0 rng0 (game'\<lparr>gd_grid := start_of (gd_grid g2) x y\<rparr>) =
         ok (True, pt0, rng0, game')" by blast
    have "start_of (gd_grid g2) x y = start_of (gd_grid game) x y"
      using pr by (intro start_of_shape) (simp add: preserved_def)
    with i(2,3) preserved_trans [OF pr i(1)] show ?thesis by auto
  qed
qed


lemma place_mines_shape:
  assumes "place_mines R ret0 n x y rng = ok (ret, rng')"
  shows "same_shape ret0 ret"
proof -
  let ?r = "ret0\<lparr>grid_data := replicate (length (grid_data ret0)) False\<rparr>"
  from assms obtain kept where
    f: "foldM (\<lambda>r i. set_index r i True) ?r kept = ok ret"
    unfolding place_mines_def Let_def by (auto simp add: rbind_eq_ok split: prod.splits)
  have "same_shape ?r ret"
    using f by (rule foldM_invariant [where I = "same_shape ?r"])
      (auto dest!: set_index_shape intro: same_shape_trans)
  thus ?thesis by (simp add: same_shape_def)
qed

lemma minegen_loop_accept:
  "minegen_loop R fuel ret0 n x y True rng pt ntries0 = ok (mines, rng', pt') \<Longrightarrow>
   \<exists>retp rngp ret rng1 g game'.
      same_shape ret0 retp \<and> place_mines R retp n x y rngp = ok (ret, rng1) \<and>
      Grid_new (grid_width ret) (grid_height ret) Unknown = ok g \<and>
      preserved (fake_game ret g n x y) game' \<and> gd_mines game' = mines \<and>
      mineLookup game' x y = ok Mine0 \<and>
      (\<exists>k. solve R k False pt0 rng0 (game'\<lparr>gd_grid := start_of g x y\<rparr>) =
         ok (True, pt0, rng0, game'))"
proof (induction fuel arbitrary: ret0 rng pt ntries0)
  case 0
  then show ?case by simp
next
  case (Suc fuel)
  from Suc.prems obtain ret rng1 g success game p1 r1 where
    pl: "place_mines R ret0 n x y rng = ok (ret, rng1)" and
    g: "Grid_new (grid_width ret) (grid_height ret) Unknown = ok g" and
    sa: "solve_attempts R fuel (ntries0 + 1) x y (-1) (fake_game ret g n x y) pt rng1 =
          ok (success, game, p1, r1)" and
    c: "(if success then ok (gd_mines game, r1, p1)
         else minegen_loop R fuel ret n x y True r1 p1 (ntries0 + 1)) = ok (mines, rng', pt')"
    unfolding minegen_loop.simps Let_def by (auto simp add: rbind_eq_ok)
  show ?case
  proof (cases success)
    case True
    with c have m: "gd_mines game = mines" by simp
    have "gd_grid (fake_game ret g n x y) = g" by (simp add: fake_game_def)
    from sa True have sa': "solve_attempts R fuel (ntries0 + 1) x y (-1) (fake_game ret g n x y)
        pt rng1 = ok (True, game, p1, r1)" by simp
    from \<open>gd_grid (fake_game ret g n x y) = g\<close>
      solve_attempts_accept [OF sa', of pt0 rng0] pl g m
    show ?thesis by (intro exI [of _ ret0] exI [of _ rng] exI [of _ ret] exI [of _ rng1]
          exI [of _ g] exI [of _ game]) simp
  next
    case False
    with c have "minegen_loop R fuel ret n x y True r1 p1 (ntries0 + 1) = ok (mines, rng', pt')"
      by simp
    from Suc.IH [OF this] place_mines_shape [OF pl] show ?thesis
      by (blast intro: same_shape_trans)
  qed
qed

lemma Grid_new_shape:
  "Grid_new w h v = ok g \<Longrightarrow> grid_width g = w \<and> grid_height g = h"
  by (auto simp add: Grid_new_def split: if_splits)

lemma fake_game_start:
  assumes "preserved (fake_game ret g n x y) game'" "gd_mines game' = mines"
  shows "game'\<lparr>gd_grid := s\<rparr> = fake_game mines s n x y"
  using assms by (cases game') (simp add: preserved_def fake_game_def same_shape_def)

lemma minegen_accept:
  assumes "minegen R fuel w h n x y True rng pt = ok (mines, rng', pt')"
  shows "\<exists>k game'. solve R k False pt0 rng0 (fake_game mines (start_grid w h x y) n x y) =
      ok (True, pt0, rng0, game') \<and> gd_mines game' = mines"
proof -
  from assms obtain ret0 where r0: "Grid_new w h False = ok ret0"
    and l: "minegen_loop R fuel ret0 n x y True rng pt 0 = ok (mines, rng', pt')"
    unfolding minegen_def by (auto simp add: rbind_eq_ok)
  from minegen_loop_accept [OF l, of pt0 rng0] obtain retp rngp ret rng1 g game' k where
    a: "same_shape ret0 retp" "place_mines R retp n x y rngp = ok (ret, rng1)"
      "Grid_new (grid_width ret) (grid_height ret) Unknown = ok g"
      "preserved (fake_game ret g n x y) game'" "gd_mines game' = mines"
      "solve R k False pt0 rng0 (game'\<lparr>gd_grid := start_of g x y\<rparr>) = ok (True, pt0, rng0, game')"
    by blast
  have "same_shape ret0 ret" using a(1) place_mines_shape [OF a(2)] by (rule same_shape_trans)
  hence "grid_width ret = w" "grid_height ret = h"
    using Grid_new_shape [OF r0] by (simp_all add: same_shape_def)
  hence "start_of g x y = start_grid w h x y" using a(3) by (simp add: start_of_Grid_new)
  with a(6) fake_game_start [OF a(4,5)] a(5) show ?thesis by auto
qed

section \<open>The generator: accepted boards\<close>

text \<open>
  Claim C2.  When \<open>generate\<close> returns a mines grid for parameters that ask for a unique
  board, the solver without perturbator, run on the game with this mines grid whose grid is
  unknown everywhere except for the starting square that shows zero, returns true: it
  returns within some number of iterations, no square is unknown at the end, and the mines
  are as they were.  The perturbator and the random engine passed along are not used.
\<close>

theorem generated_board_solvable:
  assumes "generate R fuel drawn gen params = ok (mines, gen')" and "p_unique params"
  shows "\<exists>k game'.
    solve R k False pt rng
      (fake_game mines
         (start_grid (p_width params) (p_height params) (p_sx params) (p_sy params))
         (p_minecount params) (p_sx params) (p_sy params)) = ok (True, pt, rng, game') \<and>
    gd_mines game' = mines \<and> Unknown \<notin> set (grid_data (gd_grid game'))"
proof -
  from assms obtain s rng' pt' where
    "minegen R fuel (p_width params) (p_height params) (p_minecount params)
       (p_sx params) (p_sy params) True s (m_perturbator gen) = ok (mines, rng', pt')"
    unfolding generate_def Let_def
    by (auto simp add: rbind_eq_ok seed_def split: if_splits)
  from minegen_accept [OF this, of pt rng] show ?thesis
    by (auto dest: solve_preserved(5))
qed

theorem generated_board_solvable_witness:
  "generate rotating_random 10 0 fresh_generator small_params =
     ok (\<lparr>grid_width = 4, grid_height = 1, grid_data = [False, False, False, True]\<rparr>,
         \<lparr>m_seed = 0, m_rng = 8,
           m_perturbator = \<lparr>pt_use_count = 0, pt_builtin = True, pt_allow_big_perturbs = False\<rparr>\<rparr>) \<and>
   p_unique small_params \<and>
   (\<exists>k game'.
      solve rotating_random k False (m_perturbator fresh_generator) 0
        (fake_game \<lparr>grid_width = 4, grid_height = 1, grid_data = [False, False, False, True]\<rparr>
           (start_grid 4 1 0 0) 1 0 0) = ok (True, m_perturbator fresh_generator, 0, game') \<and>
      gd_mines game' = \<lparr>grid_width = 4, grid_height = 1, grid_data = [False, False, False, True]\<rparr> \<and>
      Unknown \<notin> set (grid_data (gd_grid game')))"
proof -
  have u: "p_unique small_params" by (simp add: small_params_def)
  have "\<exists>k game'.
      solve rotating_random k False (m_perturbator fresh_generator) 0
        (fake_game \<lparr>grid_width = 4, grid_height = 1, grid_data = [False, False, False, True]\<rparr>
           (start_grid 4 1 0 0) 1 0 0) = ok (True, m_perturbator fresh_generator, 0, game') \<and>
      gd_mines game' = \<lparr>grid_width = 4, grid_height = 1, grid_data = [False, False, False, True]\<rparr> \<and>
      Unknown \<notin> set (grid_data (gd_grid game'))"
    using generated_board_solvable [OF generate_small u, of "m_perturbator fresh_generator" 0]
    by (simp add: small_params_def)
  with generate_small u show ?thesis by blast
qed

section \<open>The generator: the number and the place of the mines\<close>

lemma mine_int_range: "0 \<le> mine_int mines x y" "mine_int mines x y \<le> 1"
  by (simp_all add: mine_int_def)

lemma mineLookup_fold:
  assumes "grid_wf mines"
  shows "foldM (\<lambda>n (i, j).
              if \<not> contains mines (x + i) (y + j) \<or> (i = 0 \<and> j = 0) then ok n
              else rbind (at mines (x + i) (y + j)) (\<lambda>m. ok (if m then n + 1 else n)))
            n0 ds =
         ok (n0 + sum_list (map (\<lambda>(i, j). if i = 0 \<and> j = 0 then 0
                                             else mine_int mines (x + i) (y + j)) ds))"
proof -
  define step where "step = (\<lambda>(n :: int) (i, j).
              if \<not> contains mines (x + i) (y + j) \<or> (i = 0 \<and> j = 0) then ok n
              else rbind (at mines (x + i) (y + j)) (\<lambda>m. ok (if m then n + 1 else n)))"
  have s: "\<And>n i j. step n (i, j) =
      ok (n + (if i = 0 \<and> j = 0 then 0 else mine_int mines (x + i) (y + j)))"
    by (auto simp add: step_def at_cellv [OF assms] mine_int_def)
  have "foldM step n0 ds =
         ok (n0 + sum_list (map (\<lambda>(i, j). if i = 0 \<and> j = 0 then 0
                                             else mine_int mines (x + i) (y + j)) ds))"
    by (induction ds arbitrary: n0) (auto simp add: s)
  thus ?thesis unfolding step_def .
qed

lemma mineLookup_value:
  assumes "grid_wf (gd_mines game)" "contains (gd_mines game) x y"
  shows "mineLookup game x y =
    ok (if cellv (gd_mines game) x y then -1 else mines_around (gd_mines game) x y)"
proof -
  have s: "sum_list (map (\<lambda>(i, j). if i = 0 \<and> j = 0 then 0
              else mine_int (gd_mines game) (x + i) (y + j)) offsets) =
      mines_around (gd_mines game) x y"
    by (simp add: offsets_def mines_around_def mines_in_def around8_def)
  show ?thesis
    unfolding mineLookup_def at_cellv [OF assms] mineLookup_fold [OF assms(1)] s by simp
qed

lemma in_around8:
  "(dx, dy) \<in> set around8 \<longleftrightarrow> \<bar>dx\<bar> \<le> 1 \<and> \<bar>dy\<bar> \<le> 1 \<and> \<not> (dx = 0 \<and> dy = 0)"
proof -
  have a: "\<And>d::int. \<bar>d\<bar> \<le> 1 \<longleftrightarrow> d = -1 \<or> d = 0 \<or> d = 1" by arith
  show ?thesis unfolding around8_def a by auto
qed

lemma mines_in_Cons:
  "mines_in mines x y ((dx, dy) # ds) = mine_int mines (x + dx) (y + dy) + mines_in mines x y ds"
  by (simp add: mines_in_def)

lemma mines_in_nonneg: "0 \<le> mines_in mines x y ds"
proof (induction ds)
  case Nil
  then show ?case by (simp add: mines_in_def)
next
  case (Cons d ds)
  obtain i j where d: "d = (i, j)" by (cases d)
  show ?case unfolding d mines_in_Cons using Cons mine_int_range(1) [of mines "x + i" "y + j"]
    by simp
qed

lemma mines_in_zero:
  assumes "mines_in mines x y ds = 0" "(dx, dy) \<in> set ds"
  shows "mine_int mines (x + dx) (y + dy) = 0"
  using assms
proof (induction ds)
  case Nil
  then show ?case by simp
next
  case (Cons d ds)
  obtain i j where d: "d = (i, j)" by (cases d)
  from Cons.prems(1) have z: "mine_int mines (x + i) (y + j) = 0" "mines_in mines x y ds = 0"
    unfolding d mines_in_Cons
    using mines_in_nonneg [of mines x y ds] mine_int_range(1) [of mines "x + i" "y + j"]
    by simp_all
  show ?case
  proof (cases "(dx, dy) = (i, j)")
    case True
    then show ?thesis using z(1) by simp
  next
    case False
    then show ?thesis using Cons.IH [OF z(2)] Cons.prems(2) d by auto
  qed
qed

lemma no_mine_near:
  assumes "grid_wf (gd_mines game)" "contains (gd_mines game) x y"
    "mineLookup game x y = ok Mine0"
    "contains (gd_mines game) cx cy" "near x y cx cy"
  shows "\<not> cellv (gd_mines game) cx cy"
proof (cases "cx = x \<and> cy = y")
  case True
  then show ?thesis using assms(3) mineLookup_value [OF assms(1,2)]
    by (auto simp add: Mine0_def split: if_splits)
next
  case False
  have z: "mines_around (gd_mines game) x y = 0"
    using assms(3) mineLookup_value [OF assms(1,2)] by (auto simp add: Mine0_def split: if_splits)
  have "(cx - x, cy - y) \<in> set around8" using False assms(5) by (simp add: in_around8 near_def)
  from mines_in_zero [OF z [unfolded mines_around_def] this] assms(4)
  show ?thesis by (simp add: mine_int_def split: if_splits)
qed


lemma concat_if_row:
  "concat (map (\<lambda>j. if P j then [f j] else []) js) = map f (filter P js)"
  by (induction js) simp_all

lemma concat_if_grid:
  "concat (map (\<lambda>i. concat (map (\<lambda>j. if P j i then [f j i] else []) js)) rows) =
     map (\<lambda>(j, i). f j i)
       (filter (\<lambda>(j, i). P j i) (concat (map (\<lambda>i. map (\<lambda>j. (j, i)) js) rows)))"
proof (induction rows)
  case Nil
  then show ?case by simp
next
  case (Cons i rows)
  have "concat (map (\<lambda>j. if P j i then [f j i] else []) js) =
      map (\<lambda>(j, i). f j i) (filter (\<lambda>(j, i). P j i) (map (\<lambda>j. (j, i)) js))"
    unfolding concat_if_row by (simp add: filter_map comp_def)
  then show ?case using Cons by simp
qed

lemma minespos_cells:
  "minespos ret x y =
     map (\<lambda>(cx, cy). pt2idx ret cx cy) (filter (\<lambda>(cx, cy). \<not> near x y cx cy) (cells ret))"
proof -
  have "minespos ret x y =
      map (\<lambda>(cx, cy). pt2idx ret cx cy)
        (filter (\<lambda>(cx, cy). \<bar>cy - y\<bar> > 1 \<or> \<bar>cx - x\<bar> > 1) (cells ret))"
    unfolding minespos_def cells_def by (rule concat_if_grid)
  also have "(\<lambda>(cx, cy). \<bar>cy - y\<bar> > 1 \<or> \<bar>cx - x\<bar> > 1) = (\<lambda>(cx, cy). \<not> near x y cx cy)"
    by (auto simp add: near_def fun_eq_iff)
  finally show ?thesis .
qed

lemma distinct_grid:
  "distinct js \<Longrightarrow> distinct rows \<Longrightarrow>
     distinct (concat (map (\<lambda>i. map (\<lambda>j. (j, i)) js) rows))"
  by (induction rows) (auto simp add: distinct_map inj_on_def)

lemma distinct_cells: "distinct (cells g)"
  unfolding cells_def by (rule distinct_grid) simp_all

lemma distinct_minespos:
  assumes "grid_wf ret"
  shows "distinct (minespos ret x y)"
  unfolding minespos_cells
proof (rule distinct_map [THEN iffD2], intro conjI)
  show "distinct (filter (\<lambda>(cx, cy). \<not> near x y cx cy) (cells ret))"
    using distinct_cells by (rule distinct_filter)
  show "inj_on (\<lambda>(cx, cy). pt2idx ret cx cy)
      (set (filter (\<lambda>(cx, cy). \<not> near x y cx cy) (cells ret)))"
  proof (rule inj_onI, clarify)
    fix a b c d
    assume "(a, b) \<in> set (filter (\<lambda>(cx, cy). \<not> near x y cx cy) (cells ret))"
      "(c, d) \<in> set (filter (\<lambda>(cx, cy). \<not> near x y cx cy) (cells ret))"
      "pt2idx ret a b = pt2idx ret c d"
    hence "contains ret a b" "contains ret c d" "b * grid_width ret + a = d * grid_width ret + c"
      by (simp_all add: pt2idx_def)
    thus "a = c \<and> b = d"
      using assms idx_inj [of "grid_width ret" a c b d] by (simp add: grid_wf_def contains_def)
  qed
qed

lemma in_minespos:
  "i \<in> set (minespos ret x y) \<longleftrightarrow>
     (\<exists>cx cy. contains ret cx cy \<and> \<not> near x y cx cy \<and> i = cy * grid_width ret + cx)"
  unfolding minespos_cells by (auto simp add: pt2idx_def image_iff)


lemma permutation_distinct:
  assumes "length p = n" "set p = {0..<n}"
  shows "distinct p"
  using assms by (intro card_distinct) simp

lemma shuffle_props:
  assumes "random_ok R" "shuffle R rng xs = (ys, rng')"
  shows "set ys = set xs" "length ys = length xs" "distinct xs \<Longrightarrow> distinct ys"
proof -
  let ?p = "fst (rng_shuffle R rng (length xs))"
  have p: "length ?p = length xs" "set ?p = {0..<length xs}"
    using assms(1) by (simp_all add: random_ok_def)
  have ys: "ys = map (\<lambda>i. xs ! i) ?p"
    using assms(2) by (simp add: shuffle_def split_beta)
  have "set ys = (\<lambda>i. xs ! i) ` {0..<length xs}" unfolding ys using p(2) by simp
  also have "\<dots> = set (map (\<lambda>i. xs ! i) [0..<length xs])" by simp
  also have "\<dots> = set xs" by (simp only: map_nth)
  finally show "set ys = set xs" .
  show "length ys = length xs" unfolding ys using p(1) by simp
  assume d: "distinct xs"
  show "distinct ys"
    unfolding ys distinct_map
    using permutation_distinct [OF p] d p(2)
    by (auto simp add: inj_on_def nth_eq_iff_index_eq)
qed

text \<open>Setting the squares of distinct indices on a grid without mines.\<close>

lemma place_fold:
  assumes "foldM (\<lambda>r i. set_index r i True) r0 kept = ok r" "distinct kept"
    "\<forall>i \<in> set kept. 0 \<le> i \<and> \<not> grid_data r0 ! nat i"
  shows "same_shape r0 r \<and> mine_total r = mine_total r0 + int (length kept) \<and>
    (\<forall>j. 0 \<le> j \<and> j < grid_size r0 \<longrightarrow>
       grid_data r ! nat j = (grid_data r0 ! nat j \<or> j \<in> set kept))"
  using assms
proof (induction kept arbitrary: r0)
  case Nil
  then show ?case by simp
next
  case (Cons i kept)
  from Cons.prems(1) obtain r1 where s: "set_index r0 i True = ok r1"
    and f: "foldM (\<lambda>r i. set_index r i True) r1 kept = ok r"
    by (auto simp add: rbind_eq_ok)
  from s have i: "0 \<le> i" "i < grid_size r0"
    and r1: "r1 = r0\<lparr>grid_data := (grid_data r0)[nat i := True]\<rparr>"
    by (auto simp add: set_index_def split: if_splits)
  have lt: "nat i < length (grid_data r0)" using i by (simp add: grid_size_def)
  have t1: "mine_total r1 = mine_total r0 + 1"
    unfolding r1 mine_total_def using count_list_update [OF lt, of True True] Cons.prems(3)
    by simp
  have sh: "same_shape r0 r1" "grid_size r1 = grid_size r0"
    unfolding r1 by (simp_all add: same_shape_def grid_size_def)
  have k: "\<forall>k \<in> set kept. 0 \<le> k \<and> \<not> grid_data r1 ! nat k"
  proof
    fix k assume k: "k \<in> set kept"
    hence "k \<noteq> i" "0 \<le> k" using Cons.prems(2,3) by auto
    hence "nat k \<noteq> nat i" using i(1) by simp
    thus "0 \<le> k \<and> \<not> grid_data r1 ! nat k"
      using Cons.prems(3) k unfolding r1 by simp
  qed
  have d: "distinct kept" using Cons.prems(2) by simp
  note ih = Cons.IH [OF f d k]
  have "\<forall>j. 0 \<le> j \<and> j < grid_size r0 \<longrightarrow>
       grid_data r ! nat j = (grid_data r0 ! nat j \<or> j \<in> set (i # kept))"
  proof (intro allI impI)
    fix j assume j: "0 \<le> j \<and> j < grid_size r0"
    hence "grid_data r ! nat j = (grid_data r1 ! nat j \<or> j \<in> set kept)"
      using ih sh(2) by simp
    moreover have "grid_data r1 ! nat j = (grid_data r0 ! nat j \<or> j = i)"
    proof (cases "j = i")
      case True
      then show ?thesis unfolding r1 using lt by simp
    next
      case False
      hence "nat j \<noteq> nat i" using j i(1) by (auto simp add: nat_eq_iff)
      then show ?thesis unfolding r1 using False by simp
    qed
    ultimately show "grid_data r ! nat j = (grid_data r0 ! nat j \<or> j \<in> set (i # kept))"
      by auto
  qed
  thus ?case using ih t1 sh(1) by (auto intro: same_shape_trans)
qed

lemma resize_take:
  assumes "0 \<le> n" "n \<le> int (length xs)"
  shows "resize n xs = ok (take (nat n) xs)"
  using assms by (simp add: resize_def)

text \<open>
  The placement of the mines: on a grid of the data model, with a mine count between zero
  and the number of squares away from the start, exactly that many mines are placed, none of
  them within one square of the start.
\<close>

lemma place_mines_result:
  assumes "place_mines R ret0 n x y rng = ok (ret, rng')" "random_ok R" "grid_wf ret0"
    "0 \<le> n" "n \<le> int (length (minespos ret0 x y))"
  shows "same_shape ret0 ret" "mine_total ret = n"
    "contains ret cx cy \<Longrightarrow> near x y cx cy \<Longrightarrow> \<not> cellv ret cx cy"
proof -
  let ?r = "ret0\<lparr>grid_data := replicate (length (grid_data ret0)) False\<rparr>"
  have mp: "minespos ?r x y = minespos ret0 x y"
    by (simp add: minespos_cells cells_def pt2idx_def)
  obtain shuffled r1 where sh: "shuffle R rng (minespos ret0 x y) = (shuffled, r1)"
    by (cases "shuffle R rng (minespos ret0 x y)")
  note sp = shuffle_props [OF assms(2) sh]
  have wf: "grid_wf ?r" using assms(3) by (simp add: grid_wf_def)
  have rs: "resize n shuffled = ok (take (nat n) shuffled)"
    using assms(4,5) sp(2) by (intro resize_take) simp_all
  from assms(1) have f: "foldM (\<lambda>r i. set_index r i True) ?r (take (nat n) shuffled) = ok ret"
    unfolding place_mines_def Let_def mp sh by (auto simp add: rs rbind_eq_ok)
  have d: "distinct (take (nat n) shuffled)"
    using sp(3) [OF distinct_minespos [OF assms(3)]] by simp
  have sub: "set (take (nat n) shuffled) \<subseteq> set (minespos ret0 x y)"
    using sp(1) set_take_subset [of "nat n" shuffled] by simp
  have z: "\<forall>i \<in> set (take (nat n) shuffled). 0 \<le> i \<and> \<not> grid_data ?r ! nat i"
  proof
    fix i assume "i \<in> set (take (nat n) shuffled)"
    hence "i \<in> set (minespos ret0 x y)" using sub by blast
    then obtain a b where ab: "contains ret0 a b" "i = b * grid_width ret0 + a"
      unfolding in_minespos by blast
    from idx_range [OF assms(3) ab(1)] show "0 \<le> i \<and> \<not> grid_data ?r ! nat i"
      unfolding ab(2) by (simp add: grid_size_def)
  qed
  note pf = place_fold [OF f d z]
  show "same_shape ret0 ret" using pf by (simp add: same_shape_def)
  have "mine_total ?r = 0" by (simp add: mine_total_def count_list_0_iff)
  moreover have "length (take (nat n) shuffled) = nat n" using assms(5) sp(2) by simp
  ultimately show "mine_total ret = n" using pf assms(4) by simp
  assume c: "contains ret cx cy" "near x y cx cy"
  have c0: "contains ret0 cx cy" using c(1) pf by (simp add: contains_def same_shape_def)
  let ?j = "cy * grid_width ret0 + cx"
  note jr = idx_range [OF assms(3) c0]
  have "?j \<notin> set (minespos ret0 x y)"
  proof
    assume "?j \<in> set (minespos ret0 x y)"
    then obtain a b where ab: "contains ret0 a b" "\<not> near x y a b"
      "?j = b * grid_width ret0 + a" unfolding in_minespos by blast
    have "cx = a \<and> cy = b"
      using idx_inj [of "grid_width ret0" cx a cy b] assms(3) c0 ab(1,3)
      by (simp add: grid_wf_def contains_def)
    with ab(2) c(2) show False by simp
  qed
  hence "?j \<notin> set (take (nat n) shuffled)" using sub by blast
  moreover have "grid_data ret ! nat ?j = (grid_data ?r ! nat ?j \<or> ?j \<in> set (take (nat n) shuffled))"
    using pf jr by (simp add: grid_size_def)
  ultimately have "\<not> grid_data ret ! nat ?j" using jr by (simp add: grid_size_def)
  moreover have "grid_width ret = grid_width ret0" using pf by (simp add: same_shape_def)
  ultimately show "\<not> cellv ret cx cy" by (simp add: cellv_def)
qed


lemma length_cells:
  assumes "0 \<le> grid_width g" "0 \<le> grid_height g"
  shows "int (length (cells g)) = grid_width g * grid_height g"
proof -
  have "length (cells g) = nat (grid_height g) * nat (grid_width g)"
    unfolding cells_def by (simp add: length_concat comp_def sum_list_triv)
  thus ?thesis using assms by (simp add: nat_mult_distrib mult.commute)
qed

lemma length_minespos:
  assumes "0 \<le> grid_width g" "0 \<le> grid_height g"
  shows "int (length (minespos g x y)) =
    grid_width g * grid_height g - safe_zone_size (grid_width g) (grid_height g) x y"
proof -
  have "length (filter (\<lambda>(cx, cy). near x y cx cy) (cells g)) +
      length (filter (\<lambda>c. \<not> (case c of (cx, cy) \<Rightarrow> near x y cx cy)) (cells g)) =
      length (cells g)"
    by (rule sum_length_filter_compl)
  moreover have "(\<lambda>c. \<not> (case c of (cx, cy) \<Rightarrow> near x y cx cy)) =
      (\<lambda>(cx, cy). \<not> near x y cx cy)" by (simp add: fun_eq_iff)
  ultimately have "int (length (minespos g x y)) =
      int (length (cells g)) - int (length (filter (\<lambda>(cx, cy). near x y cx cy) (cells g)))"
    unfolding minespos_cells by simp
  thus ?thesis
    unfolding length_cells [OF assms] by (simp add: safe_zone_size_def cells_def)
qed

lemma same_shape_wf: "same_shape g g' \<Longrightarrow> grid_wf g \<Longrightarrow> grid_wf g'"
  by (simp add: same_shape_def grid_wf_def)

lemma Grid_new_wf:
  assumes "Grid_new w h v = ok g" "1 \<le> w" "1 \<le> h"
  shows "grid_wf g" "grid_width g = w" "grid_height g = h"
  using assms by (auto simp add: Grid_new_def grid_wf_def split: if_splits)

lemma minegen_loop_plain:
  assumes "minegen_loop R fuel ret0 n x y False rng pt ntries0 = ok (mines, rng', pt')"
  shows "place_mines R ret0 n x y rng = ok (mines, rng')"
  using assms by (cases fuel) (auto simp add: rbind_eq_ok Let_def)

text \<open>The two invariants of a board for the start \<open>(x, y)\<close> and the mine count \<open>n\<close>.\<close>

lemma minegen_invariants:
  assumes "minegen R fuel w h n x y unique rng pt = ok (mines, rng', pt')" "random_ok R"
    "1 \<le> w" "1 \<le> h" "0 \<le> x" "x < w" "0 \<le> y" "y < h" "0 \<le> n"
    "n \<le> w * h - safe_zone_size w h x y"
  shows "grid_wf mines \<and> grid_width mines = w \<and> grid_height mines = h \<and>
    mine_total mines = n \<and>
    (\<forall>cx cy. contains mines cx cy \<and> near x y cx cy \<longrightarrow> \<not> cellv mines cx cy)"
proof -
  from assms(1) obtain ret0 where r0: "Grid_new w h False = ok ret0"
    and l: "minegen_loop R fuel ret0 n x y unique rng pt 0 = ok (mines, rng', pt')"
    unfolding minegen_def by (auto simp add: rbind_eq_ok)
  note w0 = Grid_new_wf [OF r0 assms(3,4)]
  have bound: "\<And>g. same_shape ret0 g \<Longrightarrow> n \<le> int (length (minespos g x y))"
  proof -
    fix g :: "bool Grid" assume "same_shape ret0 g"
    hence "grid_width g = w" "grid_height g = h" using w0 by (simp_all add: same_shape_def)
    thus "n \<le> int (length (minespos g x y))"
      using length_minespos [of g x y] assms(3,4,10) by simp
  qed
  show ?thesis
  proof (cases unique)
    case False
    with l have p: "place_mines R ret0 n x y rng = ok (mines, rng')"
      by (auto dest: minegen_loop_plain)
    note r = place_mines_result [OF p assms(2) w0(1) assms(9) bound [OF same_shape_refl]]
    have "grid_wf mines" using r(1) w0(1) by (rule same_shape_wf)
    moreover have "grid_width mines = w" "grid_height mines = h"
      using r(1) w0 by (simp_all add: same_shape_def)
    ultimately show ?thesis using r(2,3) by blast
  next
    case True
    from l True have l': "minegen_loop R fuel ret0 n x y True rng pt 0 = ok (mines, rng', pt')"
      by simp
    from minegen_loop_accept [OF l', of pt rng]
    obtain retp rngp ret rng1 g game' where
      a: "same_shape ret0 retp" "place_mines R retp n x y rngp = ok (ret, rng1)"
        "preserved (fake_game ret g n x y) game'" "gd_mines game' = mines"
        "mineLookup game' x y = ok Mine0"
      by blast
    have wp: "grid_wf retp" using a(1) w0(1) by (rule same_shape_wf)
    note r = place_mines_result [OF a(2) assms(2) wp assms(9) bound [OF a(1)]]
    have s: "same_shape ret0 mines"
      using a(1) r(1) a(3,4)
      by (auto simp add: preserved_def fake_game_def intro: same_shape_trans)
    have wf: "grid_wf mines" using s w0(1) by (rule same_shape_wf)
    have sz: "grid_width mines = w" "grid_height mines = h"
      using s w0 by (simp_all add: same_shape_def)
    have t: "mine_total mines = n"
      using a(3,4) r(2) by (simp add: preserved_def fake_game_def)
    have c: "contains (gd_mines game') x y"
      using sz assms(5-8) a(4) by (simp add: contains_def)
    have "\<forall>cx cy. contains mines cx cy \<and> near x y cx cy \<longrightarrow> \<not> cellv mines cx cy"
      using no_mine_near [of game' x y] wf c a(4,5) by auto
    with wf sz t show ?thesis by blast
  qed
qed


text \<open>
  Claim C4.  A mines grid that \<open>generate\<close> returns for parameters in range, with or
  without the request for a unique board, has the width and the height of the parameters,
  holds exactly \<open>mine_count\<close> mines, and holds no mine within one square of the start.
\<close>

theorem generated_board_invariants:
  assumes "generate R fuel drawn gen params = ok (mines, gen')" and "random_ok R"
    and "params_in_range params"
  shows "grid_wf mines \<and> grid_width mines = p_width params \<and>
    grid_height mines = p_height params \<and>
    mine_total mines = p_minecount params \<and>
    (\<forall>cx cy. contains mines cx cy \<and> near (p_sx params) (p_sy params) cx cy \<longrightarrow>
       \<not> cellv mines cx cy)"
proof -
  from assms(1) obtain s rng' pt' where
    m: "minegen R fuel (p_width params) (p_height params) (p_minecount params)
       (p_sx params) (p_sy params) (p_unique params) s (m_perturbator gen) = ok (mines, rng', pt')"
    unfolding generate_def Let_def
    by (auto simp add: rbind_eq_ok seed_def split: if_splits)
  show ?thesis
    using assms(3) unfolding params_in_range_def
    by (intro minegen_invariants [OF m assms(2)]) simp_all
qed

lemma rotating_random_ok: "random_ok rotating_random"
proof -
  have "\<And>(r::nat) (a::int) b. a \<le> b \<Longrightarrow> a \<le> a + int r mod (b - a + 1) \<and> a + int r mod (b - a + 1) \<le> b"
  proof -
    fix r :: nat and a b :: int assume "a \<le> b"
    hence "0 < b - a + 1" by simp
    from pos_mod_sign [OF this, of "int r"] pos_mod_bound [OF this, of "int r"]
    show "a \<le> a + int r mod (b - a + 1) \<and> a + int r mod (b - a + 1) \<le> b" by simp
  qed
  thus ?thesis by (simp add: random_ok_def rotating_random_def)
qed

lemma small_params_in_range: "params_in_range small_params"
  by code_simp

theorem generated_board_invariants_witness:
  "generate rotating_random 10 0 fresh_generator small_params =
     ok (\<lparr>grid_width = 4, grid_height = 1, grid_data = [False, False, False, True]\<rparr>,
         \<lparr>m_seed = 0, m_rng = 8,
           m_perturbator = \<lparr>pt_use_count = 0, pt_builtin = True, pt_allow_big_perturbs = False\<rparr>\<rparr>) \<and>
   params_in_range small_params \<and>
   mine_total \<lparr>grid_width = 4, grid_height = 1, grid_data = [False, False, False, True]\<rparr> = 1 \<and>
   \<not> cellv \<lparr>grid_width = 4, grid_height = 1, grid_data = [False, False, False, True]\<rparr> 0 0 \<and>
   \<not> cellv \<lparr>grid_width = 4, grid_height = 1, grid_data = [False, False, False, True]\<rparr> 1 0"
proof -
  let ?G = "\<lparr>grid_width = 4, grid_height = 1, grid_data = [False, False, False, True]\<rparr>"
  have c: "contains ?G 0 0" "contains ?G 1 0" "near 0 0 0 0" "near 0 0 1 0"
    by (simp_all add: contains_def near_def)
  have "mine_total ?G = 1 \<and> \<not> cellv ?G 0 0 \<and> \<not> cellv ?G 1 0"
    using generated_board_invariants [OF generate_small rotating_random_ok small_params_in_range] c
    by (simp add: small_params_def)
  with generate_small small_params_in_range show ?thesis by blast
qed

end
